theory Spec2Isabelle
  imports Main
begin

section \<open>Data model\<close>

text \<open>
  The editor is one React component (\<^verbatim>\<open>src/components/pixel-art-editor.tsx\<close>). Its state
  lives in \<^verbatim>\<open>useState\<close> cells; every handler reads the cells of the current render and
  overwrites some of them. A handler is therefore modelled as a function from the state
  before the event to the state after it. A handler that throws is modelled by a result
  \<open>Inl e\<close>; the state left behind by an aborted handler is not tracked.

  A pixel grid is \<^verbatim>\<open>string[][]\<close>, indexed \<^verbatim>\<open>grid[y][x]\<close>; the empty string is the empty
  cell. Grid sizes are natural numbers (the size selector offers 8, 16, 32 and 64);
  pointer coordinates and the history cursor are integers, since the source lets them
  be negative (\<^verbatim>\<open>x - 1\<close>, \<^verbatim>\<open>historyIndex = -1\<close>).
\<close>

type_synonym PixelGrid = "string list list"

record Layer =
  id_layer :: string
  name :: string
  visible :: bool
  opacity :: int
  grid :: PixelGrid

datatype Tool = Pencil | Eraser | Bucket | Picker

record HistoryState =
  layers :: "Layer list"
  gridSize :: nat

text \<open>
  The component state. Its cells \<^verbatim>\<open>layers\<close> and \<^verbatim>\<open>gridSize\<close> carry the same names as the
  fields of \<^verbatim>\<open>HistoryState\<close>, so the state record extends \<open>HistoryState\<close>: the live
  document is the \<open>HistoryState\<close> part of the state. The cells \<^verbatim>\<open>showGridLines\<close> and
  \<^verbatim>\<open>zoom\<close> only steer rendering and are left out.
\<close>

record Editor = HistoryState +
  activeLayerId :: string
  selectedColor :: string
  tool :: Tool
  isDrawing :: bool
  history :: "HistoryState list"
  historyIndex :: int

text \<open>
  What JavaScript does where the types of the source promise more than the data holds:
  \<open>TypeError\<close> is thrown when a property of \<^verbatim>\<open>undefined\<close> is read (\<^verbatim>\<open>grid[y][x]\<close> with row
  \<open>y\<close> absent, \<^verbatim>\<open>history[i].layers\<close> with entry \<open>i\<close> absent). \<open>UndefinedCell\<close> marks a read
  \<^verbatim>\<open>grid[y][x]\<close> past the end of an existing row where the source goes on to use the value
  as a \<^verbatim>\<open>string\<close>: JavaScript yields \<^verbatim>\<open>undefined\<close> there, a value outside \<^verbatim>\<open>string[][]\<close>,
  and the model stops at that point.
\<close>

datatype js_error = TypeError | UndefinedCell

definition DEFAULT_GRID_SIZE :: nat where
  "DEFAULT_GRID_SIZE = 16"

definition MAX_HISTORY :: nat where
  "MAX_HISTORY = 20"

definition createEmptyGrid :: "nat \<Rightarrow> PixelGrid" where
  "createEmptyGrid n = replicate n (replicate n [])"

text \<open>
  \<^verbatim>\<open>JSON.parse(JSON.stringify(layers))\<close> rebuilds every layer object, every row and every
  cell. On values it is the identity (lemma \<open>jsonClone_ident\<close>); what it adds in the
  source is that the copy shares no array with the original.
\<close>

definition jsonClone :: "Layer list \<Rightarrow> Layer list" where
  "jsonClone ls =
     map (\<lambda>l. \<lparr>id_layer = id_layer l, name = name l, visible = visible l, opacity = opacity l,
               grid = map (\<lambda>row. map (\<lambda>c. c) row) (grid l)\<rparr>) ls"

definition initialEditor :: Editor where
  "initialEditor =
     \<lparr>layers = [\<lparr>id_layer = ''layer-1'', name = ''Layer 1'', visible = True, opacity = 100,
                  grid = createEmptyGrid DEFAULT_GRID_SIZE\<rparr>],
      gridSize = DEFAULT_GRID_SIZE,
      activeLayerId = ''layer-1'',
      selectedColor = ''#ff6b00'',
      tool = Pencil,
      isDrawing = False,
      history = [],
      historyIndex = - 1\<rparr>"

definition document :: "Editor \<Rightarrow> HistoryState" where
  "document s = \<lparr>layers = layers s, gridSize = gridSize s\<rparr>"

section \<open>History\<close>

text \<open>The effect that initialises the history (lines 104-110).\<close>

definition initHistory :: "Editor \<Rightarrow> Editor" where
  "initHistory s =
     (if length (history s) = 0
      then s\<lparr>history := [\<lparr>layers = jsonClone (layers s), gridSize = gridSize s\<rparr>], historyIndex := 0\<rparr>
      else s)"

text \<open>\<^verbatim>\<open>xs.slice(0, e)\<close>: a negative end counts from the back, and the end is capped.\<close>

definition slice0 :: "'a list \<Rightarrow> int \<Rightarrow> 'a list" where
  "slice0 xs e = (if e < 0 then take (nat (int (length xs) + e)) xs else take (nat e) xs)"

text \<open>\<^verbatim>\<open>addToHistory\<close> (lines 114-125); \<^verbatim>\<open>shift()\<close> drops the first entry.\<close>

definition addToHistory :: "Editor \<Rightarrow> Layer list \<Rightarrow> nat \<Rightarrow> Editor" where
  "addToHistory s newLayers newGridSize =
     (let newState = \<lparr>layers = jsonClone newLayers, gridSize = newGridSize\<rparr>;
          pushed = slice0 (history s) (historyIndex s + 1) @ [newState];
          newHistory = (if length pushed > MAX_HISTORY then tl pushed else pushed)
      in s\<lparr>history := newHistory, historyIndex := int (length newHistory) - 1\<rparr>)"

text \<open>\<^verbatim>\<open>undo\<close> and \<^verbatim>\<open>redo\<close> (lines 127-143).\<close>

definition undo :: "Editor \<Rightarrow> js_error + Editor" where
  "undo s =
     (if historyIndex s > 0 then
        (if nat (historyIndex s - 1) < length (history s) then
           (let prevState = history s ! nat (historyIndex s - 1)
            in Inr (s\<lparr>layers := jsonClone (layers prevState), gridSize := gridSize prevState,
                      historyIndex := historyIndex s - 1\<rparr>))
         else Inl TypeError)
      else Inr s)"

definition redo :: "Editor \<Rightarrow> js_error + Editor" where
  "redo s =
     (if historyIndex s < int (length (history s)) - 1 then
        (if 0 \<le> historyIndex s + 1 then
           (let nextState = history s ! nat (historyIndex s + 1)
            in Inr (s\<lparr>layers := jsonClone (layers nextState), gridSize := gridSize nextState,
                      historyIndex := historyIndex s + 1\<rparr>))
         else Inl TypeError)
      else Inr s)"

text \<open>A run of commits, and a run of undos that stops at the first exception.\<close>

fun commits :: "Editor \<Rightarrow> HistoryState list \<Rightarrow> Editor" where
  "commits s [] = s"
| "commits s (d # ds) = commits (addToHistory s (layers d) (gridSize d)) ds"

fun undos :: "nat \<Rightarrow> Editor \<Rightarrow> js_error + Editor" where
  "undos 0 s = Inr s"
| "undos (Suc n) s = (case undo s of Inl e \<Rightarrow> Inl e | Inr u \<Rightarrow> undos n u)"

section \<open>Flood fill\<close>

text \<open>
  \<^verbatim>\<open>floodFill\<close> (lines 159-177) takes the grid object out of \<^verbatim>\<open>layers[layerIndex]\<close> and
  writes into it in place; the four recursive calls see the writes of the calls before
  them. The model threads that one grid through the calls. \<open>gs\<close> is the \<^verbatim>\<open>gridSize\<close> cell.
  A read past the end of a row yields \<^verbatim>\<open>undefined\<close>, which differs from every target
  colour, so the call returns; a missing row throws.
\<close>

function floodFill :: "nat \<Rightarrow> PixelGrid \<Rightarrow> int \<Rightarrow> int \<Rightarrow> string \<Rightarrow> string \<Rightarrow> js_error + PixelGrid" where
  "floodFill gs g x y targetColor replacementColor =
    (if targetColor = replacementColor then Inr g
     else if x < 0 \<or> x \<ge> int gs \<or> y < 0 \<or> y \<ge> int gs then Inr g
     else if \<not> nat y < length g then Inl TypeError
     else if \<not> (nat x < length (g ! nat y) \<and> g ! nat y ! nat x = targetColor) then Inr g
     else case floodFill gs (g[nat y := (g ! nat y)[nat x := replacementColor]]) (x + 1) y
                 targetColor replacementColor of
            Inl e \<Rightarrow> Inl e
          | Inr g1 \<Rightarrow>
       (case floodFill gs g1 (x - 1) y targetColor replacementColor of
            Inl e \<Rightarrow> Inl e
          | Inr g2 \<Rightarrow>
       (case floodFill gs g2 x (y + 1) targetColor replacementColor of
            Inl e \<Rightarrow> Inl e
          | Inr g3 \<Rightarrow> floodFill gs g3 x (y - 1) targetColor replacementColor)))"
  by pat_completeness auto

text \<open>
  Termination: every call that gets past the guards recolours one cell of the target
  colour, and no call adds one. The second fact is needed before termination is known,
  so it is proved on the domain of the function first.
\<close>

definition cnt :: "string \<Rightarrow> PixelGrid \<Rightarrow> nat" where
  "cnt t g = sum_list (map (\<lambda>row. count_list row t) g)"

lemma count_list_update:
  "x < length row \<Longrightarrow> row ! x = t \<Longrightarrow> r \<noteq> t \<Longrightarrow> Suc (count_list (row[x := r]) t) = count_list row t"
  by (induction row arbitrary: x) (auto split: nat.splits simp: nth_Cons)

lemma cnt_update:
  "y < length g \<Longrightarrow> Suc (count_list row' t) = count_list (g ! y) t \<Longrightarrow> Suc (cnt t (g[y := row'])) = cnt t g"
  unfolding cnt_def
  by (induction g arbitrary: y) (auto split: nat.splits simp: nth_Cons)

lemma cnt_paint:
  "y < length g \<Longrightarrow> x < length (g ! y) \<Longrightarrow> g ! y ! x = t \<Longrightarrow> r \<noteq> t \<Longrightarrow>
   Suc (cnt t (g[y := (g ! y)[x := r]])) = cnt t g"
  by (rule cnt_update) (auto simp: count_list_update)

lemma floodFill_cnt_partial:
  "floodFill_dom (gs, g, x, y, t, r) \<Longrightarrow> floodFill gs g x y t r = Inr g' \<Longrightarrow> cnt t g' \<le> cnt t g"
proof (induction gs g x y t r arbitrary: g' rule: floodFill.pinduct)
  case (1 gs g x y t r)
  show ?case
  proof (cases "t = r \<or> x < 0 \<or> x \<ge> int gs \<or> y < 0 \<or> y \<ge> int gs \<or> \<not> nat y < length g
                \<or> \<not> (nat x < length (g ! nat y) \<and> g ! nat y ! nat x = t)")
    case True
    with "1.prems" "1.hyps" show ?thesis
      by (auto simp: floodFill.psimps split: if_splits)
  next
    case False
    let ?g0 = "g[nat y := (g ! nat y)[nat x := r]]"
    from False "1.prems" "1.hyps" obtain g1 g2 g3 where
      s1: "floodFill gs ?g0 (x + 1) y t r = Inr g1" and
      s2: "floodFill gs g1 (x - 1) y t r = Inr g2" and
      s3: "floodFill gs g2 x (y + 1) t r = Inr g3" and
      s4: "floodFill gs g3 x (y - 1) t r = Inr g'"
      by (auto simp: floodFill.psimps split: sum.splits)
    from False have c0: "Suc (cnt t ?g0) = cnt t g"
      by (intro cnt_paint) auto
    from False have guards: "t \<noteq> r" "\<not> (x < 0 \<or> x \<ge> int gs \<or> y < 0 \<or> y \<ge> int gs)"
       "\<not> \<not> nat y < length g" "\<not> \<not> (nat x < length (g ! nat y) \<and> g ! nat y ! nat x = t)"
      by auto
    note ih = "1.IH"[OF guards]
    have c1: "cnt t g1 \<le> cnt t ?g0" using ih(1)[OF s1] .
    have c2: "cnt t g2 \<le> cnt t g1" using ih(2)[OF s1 s2] .
    have c3: "cnt t g3 \<le> cnt t g2" using ih(3)[OF s1 s2 s3] .
    have c4: "cnt t g' \<le> cnt t g3" using ih(4)[OF s1 s2 s3 s4] .
    from c0 c1 c2 c3 c4 show ?thesis by linarith
  qed
qed

termination floodFill
proof (relation "measure (\<lambda>(gs, g, x, y, t, r). cnt t g)", goal_cases)
  case 1 show ?case by simp
next
  case (2 gs g x y t r)
  then have "Suc (cnt t (g[nat y := (g ! nat y)[nat x := r]])) = cnt t g"
    by (intro cnt_paint) auto
  then show ?case by simp
next
  case (3 gs g x y t r g1)
  then have "Suc (cnt t (g[nat y := (g ! nat y)[nat x := r]])) = cnt t g"
    by (intro cnt_paint) auto
  moreover have "cnt t g1 \<le> cnt t (g[nat y := (g ! nat y)[nat x := r]])"
    using 3 by (intro floodFill_cnt_partial) auto
  ultimately show ?case by simp
next
  case (4 gs g x y t r g1 g2)
  then have "Suc (cnt t (g[nat y := (g ! nat y)[nat x := r]])) = cnt t g"
    by (intro cnt_paint) auto
  moreover have "cnt t g1 \<le> cnt t (g[nat y := (g ! nat y)[nat x := r]])"
    using 4 by (intro floodFill_cnt_partial) auto
  moreover have "cnt t g2 \<le> cnt t g1"
    using 4 by (intro floodFill_cnt_partial) auto
  ultimately show ?case by simp
next
  case (5 gs g x y t r g1 g2 g3)
  then have "Suc (cnt t (g[nat y := (g ! nat y)[nat x := r]])) = cnt t g"
    by (intro cnt_paint) auto
  moreover have "cnt t g1 \<le> cnt t (g[nat y := (g ! nat y)[nat x := r]])"
    using 5 by (intro floodFill_cnt_partial) auto
  moreover have "cnt t g2 \<le> cnt t g1"
    using 5 by (intro floodFill_cnt_partial) auto
  moreover have "cnt t g3 \<le> cnt t g2"
    using 5 by (intro floodFill_cnt_partial) auto
  ultimately show ?case by simp
qed

declare floodFill.simps [simp del]

lemma floodFill_cnt: "floodFill gs g x y t r = Inr g' \<Longrightarrow> cnt t g' \<le> cnt t g"
proof (induction gs g x y t r arbitrary: g' rule: floodFill.induct)
  case (1 gs g x y t r)
  show ?case
  proof (cases "t = r \<or> x < 0 \<or> x \<ge> int gs \<or> y < 0 \<or> y \<ge> int gs \<or> \<not> nat y < length g
                \<or> \<not> (nat x < length (g ! nat y) \<and> g ! nat y ! nat x = t)")
    case True
    with "1.prems" show ?thesis
      by (subst (asm) floodFill.simps) (auto split: if_splits)
  next
    case False
    let ?g0 = "g[nat y := (g ! nat y)[nat x := r]]"
    from False "1.prems" obtain g1 g2 g3 where
      s1: "floodFill gs ?g0 (x + 1) y t r = Inr g1" and
      s2: "floodFill gs g1 (x - 1) y t r = Inr g2" and
      s3: "floodFill gs g2 x (y + 1) t r = Inr g3" and
      s4: "floodFill gs g3 x (y - 1) t r = Inr g'"
      by (subst (asm) floodFill.simps) (auto split: sum.splits)
    from False have c0: "Suc (cnt t ?g0) = cnt t g"
      by (intro cnt_paint) auto
    from False have guards: "t \<noteq> r" "\<not> (x < 0 \<or> x \<ge> int gs \<or> y < 0 \<or> y \<ge> int gs)"
       "\<not> \<not> nat y < length g" "\<not> \<not> (nat x < length (g ! nat y) \<and> g ! nat y ! nat x = t)"
      by auto
    note ih = "1.IH"[OF guards]
    have c1: "cnt t g1 \<le> cnt t ?g0" using ih(1)[OF s1] .
    have c2: "cnt t g2 \<le> cnt t g1" using ih(2)[OF s1 s2] .
    have c3: "cnt t g3 \<le> cnt t g2" using ih(3)[OF s1 s2 s3] .
    have c4: "cnt t g' \<le> cnt t g3" using ih(4)[OF s1 s2 s3 s4] .
    from c0 c1 c2 c3 c4 show ?thesis by linarith
  qed
qed

text \<open>
  The depth of the JavaScript call stack that one call of \<^verbatim>\<open>floodFill\<close> builds: a call that
  returns at a guard is one frame deep; a call that recurses is one frame above the
  deepest of its four callees. The callees run on the grids that the calls before them
  left behind. An exception unwinds the stack from the callee that threw.
\<close>

function floodFillDepth :: "nat \<Rightarrow> PixelGrid \<Rightarrow> int \<Rightarrow> int \<Rightarrow> string \<Rightarrow> string \<Rightarrow> nat" where
  "floodFillDepth gs g x y targetColor replacementColor =
    (if targetColor = replacementColor then 1
     else if x < 0 \<or> x \<ge> int gs \<or> y < 0 \<or> y \<ge> int gs then 1
     else if \<not> nat y < length g then 1
     else if \<not> (nat x < length (g ! nat y) \<and> g ! nat y ! nat x = targetColor) then 1
     else
       let g0 = g[nat y := (g ! nat y)[nat x := replacementColor]];
           d1 = floodFillDepth gs g0 (x + 1) y targetColor replacementColor
       in case floodFill gs g0 (x + 1) y targetColor replacementColor of
            Inl e \<Rightarrow> 1 + d1
          | Inr g1 \<Rightarrow>
       (let d2 = floodFillDepth gs g1 (x - 1) y targetColor replacementColor
        in case floodFill gs g1 (x - 1) y targetColor replacementColor of
            Inl e \<Rightarrow> 1 + max d1 d2
          | Inr g2 \<Rightarrow>
       (let d3 = floodFillDepth gs g2 x (y + 1) targetColor replacementColor
        in case floodFill gs g2 x (y + 1) targetColor replacementColor of
            Inl e \<Rightarrow> 1 + max d1 (max d2 d3)
          | Inr g3 \<Rightarrow>
            1 + max d1 (max d2 (max d3 (floodFillDepth gs g3 x (y - 1) targetColor replacementColor))))))"
  by pat_completeness auto


termination floodFillDepth
proof (relation "measure (\<lambda>(gs, g, x, y, t, r). cnt t g)", goal_cases)
  case 1 show ?case by simp
next
  case (2 gs g x y t r)
  then have "Suc (cnt t (g[nat y := (g ! nat y)[nat x := r]])) = cnt t g"
    by (intro cnt_paint) auto
  then show ?case using 2 by simp
next
  case (3 gs g x y t r g0 d1 g1)
  then have "Suc (cnt t g0) = cnt t g"
    using cnt_paint[of "nat y" g "nat x" t r] by auto
  moreover have "cnt t g1 \<le> cnt t g0"
    using 3 by (intro floodFill_cnt[of gs g0 "x + 1" y t r]) auto
  ultimately show ?case by simp
next
  case (4 gs g x y t r g0 d1 g1 d2 g2)
  then have "Suc (cnt t g0) = cnt t g"
    using cnt_paint[of "nat y" g "nat x" t r] by auto
  moreover have "cnt t g1 \<le> cnt t g0"
    using 4 by (intro floodFill_cnt[of gs g0 "x + 1" y t r]) auto
  moreover have "cnt t g2 \<le> cnt t g1"
    using 4 by (intro floodFill_cnt[of gs g1 "x - 1" y t r]) auto
  ultimately show ?case by simp
next
  case (5 gs g x y t r g0 d1 g1 d2 g2 d3 g3)
  then have "Suc (cnt t g0) = cnt t g"
    using cnt_paint[of "nat y" g "nat x" t r] by auto
  moreover have "cnt t g1 \<le> cnt t g0"
    using 5 by (intro floodFill_cnt[of gs g0 "x + 1" y t r]) auto
  moreover have "cnt t g2 \<le> cnt t g1"
    using 5 by (intro floodFill_cnt[of gs g1 "x - 1" y t r]) auto
  moreover have "cnt t g3 \<le> cnt t g2"
    using 5 by (intro floodFill_cnt[of gs g2 x "y + 1" t r]) auto
  ultimately show ?case by simp
qed

declare floodFillDepth.simps [simp del]

section \<open>Drawing\<close>

text \<open>\<^verbatim>\<open>Array.prototype.findIndex\<close>; \<open>None\<close> stands for the result \<open>-1\<close>.\<close>

fun findIndex :: "('a \<Rightarrow> bool) \<Rightarrow> 'a list \<Rightarrow> nat option" where
  "findIndex P [] = None"
| "findIndex P (l # ls) = (if P l then Some 0 else map_option Suc (findIndex P ls))"

text \<open>
  A read \<^verbatim>\<open>grid[y][x]\<close> whose value is used as a \<^verbatim>\<open>string\<close>, at coordinates that have passed
  the check against \<^verbatim>\<open>gridSize\<close> (so \<open>x\<close> and \<open>y\<close> are not negative).
\<close>

definition readCell :: "PixelGrid \<Rightarrow> int \<Rightarrow> int \<Rightarrow> js_error + string" where
  "readCell g x y =
     (if \<not> nat y < length g then Inl TypeError
      else if \<not> nat x < length (g ! nat y) then Inl UndefinedCell
      else Inr (g ! nat y ! nat x))"

text \<open>
  The loop of the picker branch (lines 190-196): \<open>pickerLoop ls x y (Suc i)\<close> is the loop
  at index \<open>i\<close>, \<open>pickerLoop ls x y 0\<close> is the loop after its last round. An empty string
  and \<^verbatim>\<open>undefined\<close> are both falsy, so a short row lets the loop go on; the cell is only
  read when the layer is visible. The result is the colour handed to
  \<^verbatim>\<open>setSelectedColor\<close>, if any.
\<close>

primrec pickerLoop :: "Layer list \<Rightarrow> int \<Rightarrow> int \<Rightarrow> nat \<Rightarrow> js_error + string option" where
  "pickerLoop ls x y 0 = Inr None"
| "pickerLoop ls x y (Suc i) =
     (if visible (ls ! i) then
        (if \<not> nat y < length (grid (ls ! i)) then Inl TypeError
         else if nat x < length (grid (ls ! i) ! nat y) \<and> grid (ls ! i) ! nat y ! nat x \<noteq> []
           then Inr (Some (grid (ls ! i) ! nat y ! nat x))
         else pickerLoop ls x y i)
      else pickerLoop ls x y i)"

text \<open>
  \<^verbatim>\<open>handleDraw\<close> (lines 179-215). Two grid objects matter after the clone of line 202: the
  grid that \<^verbatim>\<open>layers[layerIndex]\<close> holds, and the fresh copy that \<^verbatim>\<open>newLayers[layerIndex]\<close>
  holds. The store \<open>h\<close> keeps them apart. \<^verbatim>\<open>floodFill\<close> builds its own \<^verbatim>\<open>[...layers]\<close> and so
  reads and writes the first object (\<open>floodFillAt \<dots> LiveGrid\<close>); the pencil and the
  eraser write the second. \<^verbatim>\<open>setLayers\<close> is called by \<^verbatim>\<open>floodFill\<close> with an array of the
  live layer objects, and by the pencil branch with \<^verbatim>\<open>newLayers\<close>.
\<close>

datatype gref = LiveGrid | ClonedGrid

definition floodFillAt ::
  "nat \<Rightarrow> (gref \<Rightarrow> PixelGrid) \<Rightarrow> gref \<Rightarrow> int \<Rightarrow> int \<Rightarrow> string \<Rightarrow> string \<Rightarrow> js_error + (gref \<Rightarrow> PixelGrid)" where
  "floodFillAt gs h a x y targetColor replacementColor =
     (case floodFill gs (h a) x y targetColor replacementColor of
        Inl e \<Rightarrow> Inl e
      | Inr g' \<Rightarrow> Inr (h(a := g')))"

definition handleDraw :: "Editor \<Rightarrow> int \<Rightarrow> int \<Rightarrow> bool \<Rightarrow> js_error + Editor" where
  "handleDraw s x y isClick =
    (if x < 0 \<or> x \<ge> int (gridSize s) \<or> y < 0 \<or> y \<ge> int (gridSize s) then Inr s
     else case findIndex (\<lambda>l. id_layer l = activeLayerId s) (layers s) of
        None \<Rightarrow> Inr s
      | Some layerIndex \<Rightarrow>
        if \<not> visible (layers s ! layerIndex) then Inr s
        else
          let currentLayer = layers s ! layerIndex in
          if tool s = Picker then
            (case pickerLoop (layers s) x y (length (layers s)) of
               Inl e \<Rightarrow> Inl e
             | Inr None \<Rightarrow> Inr s
             | Inr (Some c) \<Rightarrow> Inr (s\<lparr>selectedColor := c, tool := Pencil\<rparr>))
          else
            let h = (\<lambda>a. case a of LiveGrid \<Rightarrow> grid currentLayer
                                | ClonedGrid \<Rightarrow> map (\<lambda>row. row) (grid currentLayer))
            in
            if tool s = Bucket \<and> isClick then
              (case readCell (h ClonedGrid) x y of
                 Inl e \<Rightarrow> Inl e
               | Inr targetColor \<Rightarrow>
                 (case floodFillAt (gridSize s) h LiveGrid x y targetColor (selectedColor s) of
                    Inl e \<Rightarrow> Inl e
                  | Inr h' \<Rightarrow>
                    Inr (addToHistory
                          (s\<lparr>layers := (layers s)[layerIndex := currentLayer\<lparr>grid := h' LiveGrid\<rparr>]\<rparr>)
                          ((layers s)[layerIndex := currentLayer\<lparr>grid := h' ClonedGrid\<rparr>])
                          (gridSize s))))
            else if tool s = Pencil \<or> tool s = Eraser then
              (let color = (if tool s = Eraser then [] else selectedColor s) in
               case readCell (h ClonedGrid) x y of
                 Inl e \<Rightarrow> Inl e
               | Inr c \<Rightarrow>
                 if c \<noteq> color then
                   (let h' = h(ClonedGrid := (h ClonedGrid)[nat y := (h ClonedGrid ! nat y)[nat x := color]])
                    in Inr (s\<lparr>layers := (layers s)[layerIndex := currentLayer\<lparr>grid := h' ClonedGrid\<rparr>]\<rparr>))
                 else Inr s)
            else Inr s)"

section \<open>Layers and grid size\<close>

text \<open>
  \<^verbatim>\<open>deleteLayer\<close> (lines 252-260). \<^verbatim>\<open>newLayers[newLayers.length - 1].id\<close> throws when the
  filter has left no layer.
\<close>

definition deleteLayer :: "Editor \<Rightarrow> string \<Rightarrow> js_error + Editor" where
  "deleteLayer s i =
     (if length (layers s) \<le> 1 then Inr s
      else
        let newLayers = filter (\<lambda>l. id_layer l \<noteq> i) (layers s) in
        if activeLayerId s = i then
          (if newLayers = [] then Inl TypeError
           else Inr (addToHistory (s\<lparr>layers := newLayers, activeLayerId := id_layer (last newLayers)\<rparr>)
                       newLayers (gridSize s)))
        else Inr (addToHistory (s\<lparr>layers := newLayers\<rparr>) newLayers (gridSize s)))"

text \<open>\<^verbatim>\<open>updateLayerOpacity\<close> (lines 268-272); it does not touch the history.\<close>

definition updateLayerOpacity :: "Editor \<Rightarrow> string \<Rightarrow> int \<Rightarrow> Editor" where
  "updateLayerOpacity s i v =
     s\<lparr>layers := map (\<lambda>l. if id_layer l = i then l\<lparr>opacity := v\<rparr> else l) (layers s)\<rparr>"

text \<open>
  \<^verbatim>\<open>changeGridSize\<close> (lines 274-289). \<open>copyRow\<close> is the inner loop over \<open>x\<close>, \<open>copyRows\<close> the
  outer loop over \<open>y\<close>; \<open>m\<close> is \<^verbatim>\<open>Math.min(size, gridSize)\<close>. \<open>mapLayers\<close> is \<^verbatim>\<open>layers.map\<close> with
  a callback that may throw.
\<close>

function copyRow :: "string list \<Rightarrow> string list \<Rightarrow> nat \<Rightarrow> nat \<Rightarrow> js_error + string list" where
  "copyRow src dst x m =
     (if x < m then
        (if x < length src then copyRow src (dst[x := src ! x]) (x + 1) m
         else Inl UndefinedCell)
      else Inr dst)"
  by pat_completeness auto
termination
  by (relation "measure (\<lambda>(src, dst, x, m). m - x)") auto

function copyRows :: "PixelGrid \<Rightarrow> PixelGrid \<Rightarrow> nat \<Rightarrow> nat \<Rightarrow> js_error + PixelGrid" where
  "copyRows src newGrid y m =
     (if y < m then
        (if y < length src then
           (case copyRow (src ! y) (newGrid ! y) 0 m of
              Inl e \<Rightarrow> Inl e
            | Inr row \<Rightarrow> copyRows src (newGrid[y := row]) (y + 1) m)
         else Inl TypeError)
      else Inr newGrid)"
  by pat_completeness auto
termination
  by (relation "measure (\<lambda>(src, newGrid, y, m). m - y)") auto

declare copyRow.simps [simp del] copyRows.simps [simp del]

fun mapLayers :: "(Layer \<Rightarrow> js_error + Layer) \<Rightarrow> Layer list \<Rightarrow> js_error + Layer list" where
  "mapLayers f [] = Inr []"
| "mapLayers f (l # ls) =
     (case f l of
        Inl e \<Rightarrow> Inl e
      | Inr l' \<Rightarrow> (case mapLayers f ls of Inl e \<Rightarrow> Inl e | Inr ls' \<Rightarrow> Inr (l' # ls')))"

definition resizeLayer :: "nat \<Rightarrow> nat \<Rightarrow> Layer \<Rightarrow> js_error + Layer" where
  "resizeLayer newSize oldSize layer =
     (case copyRows (grid layer) (createEmptyGrid newSize) 0 (min newSize oldSize) of
        Inl e \<Rightarrow> Inl e
      | Inr newGrid \<Rightarrow> Inr (layer\<lparr>grid := newGrid\<rparr>))"

definition changeGridSize :: "Editor \<Rightarrow> nat \<Rightarrow> js_error + Editor" where
  "changeGridSize s newSize =
     (if newSize = gridSize s then Inr s
      else case mapLayers (resizeLayer newSize (gridSize s)) (layers s) of
             Inl e \<Rightarrow> Inl e
           | Inr newLayers \<Rightarrow> Inr (addToHistory (s\<lparr>gridSize := newSize, layers := newLayers\<rparr>) newLayers newSize))"

section \<open>Vocabulary of the properties\<close>

text \<open>
  \<open>inb\<close> is the negation of the bounds check of \<^verbatim>\<open>floodFill\<close> and \<^verbatim>\<open>handleDraw\<close>. A grid is
  well formed for size \<open>gs\<close> when it has \<open>gs\<close> rows of \<open>gs\<close> cells, which is what
  \<^verbatim>\<open>createEmptyGrid\<close> builds and every handler keeps.
\<close>

definition inb :: "nat \<Rightarrow> int \<Rightarrow> int \<Rightarrow> bool" where
  "inb gs x y = (\<not> (x < 0 \<or> x \<ge> int gs \<or> y < 0 \<or> y \<ge> int gs))"

definition cellOf :: "PixelGrid \<Rightarrow> int \<Rightarrow> int \<Rightarrow> string" where
  "cellOf g x y = g ! nat y ! nat x"

definition wf_grid :: "nat \<Rightarrow> PixelGrid \<Rightarrow> bool" where
  "wf_grid gs g = (length g = gs \<and> list_all (\<lambda>row. length row = gs) g)"

definition wf_layers :: "nat \<Rightarrow> Layer list \<Rightarrow> bool" where
  "wf_layers gs ls = list_all (\<lambda>l. wf_grid gs (grid l)) ls"

text \<open>The four neighbours of a cell, in the order of the recursive calls.\<close>

definition adj4 :: "int \<times> int \<Rightarrow> int \<times> int \<Rightarrow> bool" where
  "adj4 p q = (q = (fst p + 1, snd p) \<or> q = (fst p - 1, snd p) \<or> q = (fst p, snd p + 1) \<or> q = (fst p, snd p - 1))"

text \<open>
  \<open>region gs g t s p\<close>: cell \<open>p\<close> lies in the 4-connected region of cells of colour \<open>t\<close>
  around \<open>s\<close>, that is, a path of neighbouring in-bounds cells of colour \<open>t\<close> leads from
  \<open>s\<close> to \<open>p\<close>. The region is maximal by construction: it contains every neighbour of
  colour \<open>t\<close> of each of its cells.
\<close>

inductive region :: "nat \<Rightarrow> PixelGrid \<Rightarrow> string \<Rightarrow> int \<times> int \<Rightarrow> int \<times> int \<Rightarrow> bool"
  for gs g t s where
  region_start: "inb gs (fst s) (snd s) \<Longrightarrow> cellOf g (fst s) (snd s) = t \<Longrightarrow> region gs g t s s"
| region_step: "region gs g t s p \<Longrightarrow> adj4 p q \<Longrightarrow> inb gs (fst q) (snd q) \<Longrightarrow> cellOf g (fst q) (snd q) = t
     \<Longrightarrow> region gs g t s q"

text \<open>
  What one run of \<^verbatim>\<open>floodFill\<close> with seeds \<open>A\<close> may do to a grid: a cell either keeps its
  colour, or it had the target colour, now has the replacement, lies in the region of a
  seed, and has no neighbour of the target colour left.
\<close>

definition fillRel :: "nat \<Rightarrow> string \<Rightarrow> string \<Rightarrow> (int \<times> int) set \<Rightarrow> PixelGrid \<Rightarrow> PixelGrid \<Rightarrow> bool" where
  "fillRel gs t r A g g' =
     (wf_grid gs g' \<and>
      (\<forall>i j. inb gs i j \<longrightarrow>
         cellOf g' i j = cellOf g i j \<or>
         (cellOf g i j = t \<and> cellOf g' i j = r \<and> (\<exists>a\<in>A. region gs g t a (i, j)) \<and>
          (\<forall>q. adj4 (i, j) q \<longrightarrow> inb gs (fst q) (snd q) \<longrightarrow> cellOf g' (fst q) (snd q) \<noteq> t))))"

section \<open>Example states\<close>

text \<open>Small editor states on a 2 x 2 grid, used to run the handlers on concrete inputs.\<close>

definition fillClickEditor :: Editor where
  "fillClickEditor =
     \<lparr>layers = [\<lparr>id_layer = ''layer-1'', name = ''Layer 1'', visible = True, opacity = 100,
                  grid = [[[], []], [[], ''#000000'']]\<rparr>],
      gridSize = 2,
      activeLayerId = ''layer-1'',
      selectedColor = ''#ff6b00'',
      tool = Bucket,
      isDrawing = False,
      history = [],
      historyIndex = - 1\<rparr>"

definition hiddenActiveEditor :: Editor where
  "hiddenActiveEditor =
     \<lparr>layers = [\<lparr>id_layer = ''layer-1'', name = ''Layer 1'', visible = True, opacity = 100,
                  grid = [[''#ff0044'', []], [[], []]]\<rparr>,
                \<lparr>id_layer = ''layer-2'', name = ''Layer 2'', visible = False, opacity = 100,
                  grid = [[[], []], [[], []]]\<rparr>],
      gridSize = 2,
      activeLayerId = ''layer-2'',
      selectedColor = ''#ff6b00'',
      tool = Picker,
      isDrawing = False,
      history = [],
      historyIndex = - 1\<rparr>"

definition visibleActiveEditor :: Editor where
  "visibleActiveEditor = hiddenActiveEditor\<lparr>activeLayerId := ''layer-1''\<rparr>"

definition pencilEditor :: Editor where
  "pencilEditor = visibleActiveEditor\<lparr>tool := Pencil\<rparr>"

section \<open>Flood fill recolours exactly the region of the start cell\<close>

lemma wf_grid_row: "wf_grid gs g \<Longrightarrow> inb gs x y \<Longrightarrow> nat y < length g \<and> nat x < length (g ! nat y)"
  by (auto simp: wf_grid_def inb_def list_all_length)

lemma wf_grid_paint: "wf_grid gs g \<Longrightarrow> wf_grid gs (g[j := (g ! j)[i := r]])"
  by (cases "j < length g") (auto simp: wf_grid_def list_all_length nth_list_update)

lemma cellOf_paint:
  "wf_grid gs g \<Longrightarrow> inb gs x y \<Longrightarrow> inb gs i j \<Longrightarrow>
   cellOf (g[nat y := (g ! nat y)[nat x := r]]) i j = (if i = x \<and> j = y then r else cellOf g i j)"
  by (auto simp: cellOf_def wf_grid_def inb_def list_all_length nth_list_update)

lemma region_inb: "region gs g t s p \<Longrightarrow> inb gs (fst p) (snd p) \<and> cellOf g (fst p) (snd p) = t"
  by (induction rule: region.induct) auto

lemma region_mono:
  assumes "region gs g1 t s p"
    and "\<And>i j. inb gs i j \<Longrightarrow> cellOf g1 i j = t \<Longrightarrow> cellOf g i j = t"
  shows "region gs g t s p"
  using assms(1)
proof (induction rule: region.induct)
  case region_start
  then show ?case using assms(2) by (auto intro: region.region_start)
next
  case (region_step p q)
  then show ?case using assms(2) by (auto intro: region.region_step)
qed

lemma region_prepend:
  assumes "region gs g t a p" and "adj4 s a"
    and "inb gs (fst s) (snd s)" and "cellOf g (fst s) (snd s) = t"
  shows "region gs g t s p"
  using assms(1)
proof (induction rule: region.induct)
  case region_start
  have "region gs g t s s" using assms(3,4) by (rule region.region_start)
  then show ?case using assms(2) region_start by (rule region.region_step)
next
  case (region_step p q)
  then show ?case by (auto intro: region.region_step)
qed

lemma fillRel_cell:
  assumes "fillRel gs t r A g g'" and "inb gs i j" and "cellOf g' i j \<noteq> cellOf g i j"
  shows "cellOf g i j = t" and "cellOf g' i j = r" and "\<exists>a\<in>A. region gs g t a (i, j)"
    and "\<forall>q. adj4 (i, j) q \<longrightarrow> inb gs (fst q) (snd q) \<longrightarrow> cellOf g' (fst q) (snd q) \<noteq> t"
  using assms unfolding fillRel_def by blast+

lemma fillRel_refl: "wf_grid gs g \<Longrightarrow> fillRel gs t r A g g"
  by (simp add: fillRel_def)

lemma fillRel_keeps:
  "fillRel gs t r A g g' \<Longrightarrow> t \<noteq> r \<Longrightarrow> inb gs i j \<Longrightarrow> cellOf g i j \<noteq> t \<Longrightarrow> cellOf g' i j = cellOf g i j"
  unfolding fillRel_def by blast

lemma fillRel_nonT:
  "fillRel gs t r A g g' \<Longrightarrow> t \<noteq> r \<Longrightarrow> inb gs i j \<Longrightarrow> cellOf g i j \<noteq> t \<Longrightarrow> cellOf g' i j \<noteq> t"
  by (simp add: fillRel_keeps)

lemma fillRel_T_back:
  "fillRel gs t r A g g' \<Longrightarrow> t \<noteq> r \<Longrightarrow> inb gs i j \<Longrightarrow> cellOf g' i j = t \<Longrightarrow> cellOf g i j = t"
  by (rule ccontr) (simp add: fillRel_keeps)

lemma fillRel_trans:
  assumes ne: "t \<noteq> r" and r1: "fillRel gs t r A g g1" and r2: "fillRel gs t r B g1 g2"
  shows "fillRel gs t r (A \<union> B) g g2"
  unfolding fillRel_def
proof (intro conjI allI impI)
  show "wf_grid gs g2" using r2 by (simp add: fillRel_def)
next
  fix i j assume ib: "inb gs i j"
  let ?closed = "\<lambda>h. \<forall>q. adj4 (i, j) q \<longrightarrow> inb gs (fst q) (snd q) \<longrightarrow> cellOf h (fst q) (snd q) \<noteq> t"
  from r1 ib consider (same1) "cellOf g1 i j = cellOf g i j"
    | (chg1) "cellOf g i j = t" "cellOf g1 i j = r" "\<exists>a\<in>A. region gs g t a (i, j)" "?closed g1"
    unfolding fillRel_def by blast
  then show "cellOf g2 i j = cellOf g i j \<or>
         (cellOf g i j = t \<and> cellOf g2 i j = r \<and> (\<exists>a\<in>A \<union> B. region gs g t a (i, j)) \<and> ?closed g2)"
  proof cases
    case same1
    from r2 ib consider (same2) "cellOf g2 i j = cellOf g1 i j"
      | (chg2) "cellOf g1 i j = t" "cellOf g2 i j = r" "\<exists>a\<in>B. region gs g1 t a (i, j)" "?closed g2"
      unfolding fillRel_def by blast
    then show ?thesis
    proof cases
      case same2
      with same1 show ?thesis by simp
    next
      case chg2
      from chg2(3) obtain a where a: "a \<in> B" "region gs g1 t a (i, j)" by blast
      have "region gs g t a (i, j)"
        using a(2) fillRel_T_back[OF r1 ne] by (rule region_mono)
      then have "\<exists>a\<in>A \<union> B. region gs g t a (i, j)" using a(1) by blast
      moreover have "cellOf g i j = t" using chg2(1) same1 by simp
      ultimately show ?thesis using chg2(2,4) by blast
    qed
  next
    case chg1
    have "cellOf g2 i j = r"
      using fillRel_keeps[OF r2 ne ib] chg1(2) ne by auto
    moreover have "?closed g2"
      using chg1(4) fillRel_nonT[OF r2 ne] by blast
    moreover have "\<exists>a\<in>A \<union> B. region gs g t a (i, j)" using chg1(3) by blast
    ultimately show ?thesis using chg1(1) by blast
  qed
qed

lemma adj4_cases:
  "adj4 (x, y) q \<longleftrightarrow> q = (x + 1, y) \<or> q = (x - 1, y) \<or> q = (x, y + 1) \<or> q = (x, y - 1)"
  by (simp add: adj4_def)

lemma floodFill_skip:
  assumes "wf_grid gs g" and "\<not> (inb gs x y \<and> cellOf g x y = t)"
  shows "floodFill gs g x y t r = Inr g"
proof (cases "inb gs x y")
  case False
  then show ?thesis by (subst floodFill.simps) (auto simp: inb_def)
next
  case True
  with assms have "nat y < length g" "cellOf g x y \<noteq> t"
    using wf_grid_row by auto
  with True show ?thesis by (subst floodFill.simps) (auto simp: inb_def cellOf_def)
qed

lemma floodFill_fillRel:
  "wf_grid gs g \<Longrightarrow> t \<noteq> r \<Longrightarrow>
   \<exists>g'. floodFill gs g x y t r = Inr g' \<and> fillRel gs t r {(x, y)} g g' \<and>
        (inb gs x y \<longrightarrow> cellOf g' x y \<noteq> t)"
proof (induction gs g x y t r rule: floodFill.induct)
  case (1 gs g x y t r)
  note wf = \<open>wf_grid gs g\<close> and ne = \<open>t \<noteq> r\<close>
  show ?case
  proof (cases "inb gs x y \<and> cellOf g x y = t")
    case False
    have "floodFill gs g x y t r = Inr g" using wf False by (rule floodFill_skip)
    moreover have "fillRel gs t r {(x, y)} g g" using wf by (rule fillRel_refl)
    ultimately show ?thesis using False by auto
  next
    case True
    then have ib: "inb gs x y" and ct: "cellOf g x y = t" by auto
    let ?g0 = "g[nat y := (g ! nat y)[nat x := r]]"
    have rows: "nat y < length g" "nat x < length (g ! nat y)"
      using wf_grid_row[OF wf ib] by auto
    have guards: "t \<noteq> r" "\<not> (x < 0 \<or> x \<ge> int gs \<or> y < 0 \<or> y \<ge> int gs)" "\<not> \<not> nat y < length g"
       "\<not> \<not> (nat x < length (g ! nat y) \<and> g ! nat y ! nat x = t)"
      using ne ib ct rows by (auto simp: inb_def cellOf_def)
    note ih = "1.IH"[OF guards]
    have wf0: "wf_grid gs ?g0" using wf by (rule wf_grid_paint)
    from ih(1)[OF wf0 ne] obtain g1 where
      s1: "floodFill gs ?g0 (x + 1) y t r = Inr g1" and
      r1: "fillRel gs t r {(x + 1, y)} ?g0 g1" and
      n1: "inb gs (x + 1) y \<longrightarrow> cellOf g1 (x + 1) y \<noteq> t" by blast
    have wf1: "wf_grid gs g1" using r1 by (simp add: fillRel_def)
    from ih(2)[OF s1 wf1 ne] obtain g2 where
      s2: "floodFill gs g1 (x - 1) y t r = Inr g2" and
      r2: "fillRel gs t r {(x - 1, y)} g1 g2" and
      n2: "inb gs (x - 1) y \<longrightarrow> cellOf g2 (x - 1) y \<noteq> t" by blast
    have wf2: "wf_grid gs g2" using r2 by (simp add: fillRel_def)
    from ih(3)[OF s1 s2 wf2 ne] obtain g3 where
      s3: "floodFill gs g2 x (y + 1) t r = Inr g3" and
      r3: "fillRel gs t r {(x, y + 1)} g2 g3" and
      n3: "inb gs x (y + 1) \<longrightarrow> cellOf g3 x (y + 1) \<noteq> t" by blast
    have wf3: "wf_grid gs g3" using r3 by (simp add: fillRel_def)
    from ih(4)[OF s1 s2 s3 wf3 ne] obtain g4 where
      s4: "floodFill gs g3 x (y - 1) t r = Inr g4" and
      r4: "fillRel gs t r {(x, y - 1)} g3 g4" and
      n4: "inb gs x (y - 1) \<longrightarrow> cellOf g4 x (y - 1) \<noteq> t" by blast
    have wf4: "wf_grid gs g4" using r4 by (simp add: fillRel_def)
    have res: "floodFill gs g x y t r = Inr g4"
      by (subst floodFill.simps) (use guards s1 s2 s3 s4 in simp)
    let ?N = "{(x + 1, y)} \<union> {(x - 1, y)} \<union> {(x, y + 1)} \<union> {(x, y - 1)}"
    have r04: "fillRel gs t r ?N ?g0 g4"
      by (rule fillRel_trans[OF ne fillRel_trans[OF ne fillRel_trans[OF ne r1 r2] r3] r4])
    have r24: "fillRel gs t r ({(x, y + 1)} \<union> {(x, y - 1)}) g2 g4"
      by (rule fillRel_trans[OF ne r3 r4])
    have r14: "fillRel gs t r ({(x - 1, y)} \<union> {(x, y + 1)} \<union> {(x, y - 1)}) g1 g4"
      by (rule fillRel_trans[OF ne fillRel_trans[OF ne r2 r3] r4])
    have m1: "inb gs (x + 1) y \<longrightarrow> cellOf g4 (x + 1) y \<noteq> t"
      using n1 fillRel_nonT[OF r14 ne] by blast
    have m2: "inb gs (x - 1) y \<longrightarrow> cellOf g4 (x - 1) y \<noteq> t"
      using n2 fillRel_nonT[OF r24 ne] by blast
    have m3: "inb gs x (y + 1) \<longrightarrow> cellOf g4 x (y + 1) \<noteq> t"
      using n3 fillRel_nonT[OF r4 ne] by blast
    have closedp: "\<forall>q. adj4 (x, y) q \<longrightarrow> inb gs (fst q) (snd q) \<longrightarrow> cellOf g4 (fst q) (snd q) \<noteq> t"
      using m1 m2 m3 n4 by (auto simp: adj4_cases)
    have c0: "\<And>i j. inb gs i j \<Longrightarrow> cellOf ?g0 i j = (if i = x \<and> j = y then r else cellOf g i j)"
      by (rule cellOf_paint[OF wf ib])
    have p0: "cellOf ?g0 x y = r" using c0[OF ib] by simp
    have p4: "cellOf g4 x y = r"
      using fillRel_keeps[OF r04 ne ib] p0 ne by simp
    have startp: "region gs g t (x, y) (x, y)"
      using ib ct by (intro region_start) auto
    have tback: "cellOf g i j = t" if "inb gs i j" "cellOf ?g0 i j = t" for i j
      using c0[OF that(1)] that(2) ne by (cases "i = x \<and> j = y") simp_all
    have "fillRel gs t r {(x, y)} g g4"
      unfolding fillRel_def
    proof (intro conjI allI impI)
      show "wf_grid gs g4" by (rule wf4)
    next
      fix i j assume ij: "inb gs i j"
      let ?closed = "\<forall>q. adj4 (i, j) q \<longrightarrow> inb gs (fst q) (snd q) \<longrightarrow> cellOf g4 (fst q) (snd q) \<noteq> t"
      show "cellOf g4 i j = cellOf g i j \<or>
            (cellOf g i j = t \<and> cellOf g4 i j = r \<and> (\<exists>a\<in>{(x, y)}. region gs g t a (i, j)) \<and> ?closed)"
      proof (cases "i = x \<and> j = y")
        case True
        then show ?thesis using ct p4 startp closedp by simp
      next
        case False
        then have same0: "cellOf ?g0 i j = cellOf g i j" using c0[OF ij] by auto
        show ?thesis
        proof (cases "cellOf g4 i j = cellOf ?g0 i j")
          case True
          with same0 show ?thesis by simp
        next
          case chg: False
          note fc = fillRel_cell[OF r04 ij chg]
          from fc(3) obtain a where a: "a \<in> ?N" "region gs ?g0 t a (i, j)" by blast
          have ra: "region gs g t a (i, j)" using a(2) tback by (rule region_mono)
          have aa: "adj4 (x, y) a" using a(1) by (auto simp: adj4_cases)
          have "region gs g t (x, y) (i, j)"
            by (rule region_prepend[OF ra aa]) (use ib ct in simp_all)
          moreover have "cellOf g i j = t" using fc(1) same0 by simp
          ultimately show ?thesis using fc(2,4) by simp
        qed
      qed
    qed
    then have "floodFill gs g x y t r = Inr g4 \<and> fillRel gs t r {(x, y)} g g4 \<and>
        (inb gs x y \<longrightarrow> cellOf g4 x y \<noteq> t)"
      using res p4 ne by simp
    then show ?thesis by (rule exI)
  qed
qed

lemma fillRel_covers:
  assumes rel: "fillRel gs t r {s} g g'" and ne: "t \<noteq> r"
    and st: "cellOf g' (fst s) (snd s) \<noteq> t"
    and reg: "region gs g t s p"
  shows "cellOf g' (fst p) (snd p) = r"
  using reg
proof (induction rule: region.induct)
  case region_start
  then have "cellOf g' (fst s) (snd s) \<noteq> cellOf g (fst s) (snd s)" using st by simp
  with rel region_start(1) show ?case by (rule fillRel_cell(2))
next
  case (region_step p q)
  have pin: "inb gs (fst p) (snd p)" "cellOf g (fst p) (snd p) = t"
    using region_inb[OF region_step.hyps(1)] by auto
  have "cellOf g' (fst p) (snd p) \<noteq> cellOf g (fst p) (snd p)"
    using region_step.IH pin ne by simp
  with rel pin(1)
  have "\<forall>q. adj4 (fst p, snd p) q \<longrightarrow> inb gs (fst q) (snd q) \<longrightarrow> cellOf g' (fst q) (snd q) \<noteq> t"
    by (rule fillRel_cell(4))
  then have "cellOf g' (fst q) (snd q) \<noteq> t"
    using region_step.hyps(2,3) by simp
  then have "cellOf g' (fst q) (snd q) \<noteq> cellOf g (fst q) (snd q)"
    using region_step.hyps(4) by simp
  with rel region_step.hyps(3) show ?case by (rule fillRel_cell(2))
qed

text \<open>
  C1. On a well-formed grid, \<^verbatim>\<open>floodFill\<close> returns the grid unchanged when the coordinates
  are out of bounds, and when the colour at \<open>(x, y)\<close>, which the caller passes as target,
  equals the replacement (the empty colour included). Otherwise it returns a grid in
  which exactly the cells of the maximal 4-connected region of the target colour around
  \<open>(x, y)\<close> carry the replacement, and every other cell is unchanged.
\<close>

theorem floodFill_recolours_region:
  assumes "wf_grid gs g"
  shows "(\<not> inb gs x y \<longrightarrow> floodFill gs g x y t r = Inr g) \<and>
         (inb gs x y \<and> cellOf g x y = r \<longrightarrow> floodFill gs g x y (cellOf g x y) r = Inr g) \<and>
         (inb gs x y \<and> cellOf g x y \<noteq> r \<longrightarrow>
            (\<exists>g'. floodFill gs g x y (cellOf g x y) r = Inr g' \<and> wf_grid gs g' \<and>
                  (\<forall>i j. inb gs i j \<longrightarrow>
                     cellOf g' i j = (if region gs g (cellOf g x y) (x, y) (i, j) then r else cellOf g i j))))"
proof (intro conjI impI)
  assume "\<not> inb gs x y"
  then show "floodFill gs g x y t r = Inr g"
    using assms by (intro floodFill_skip) simp_all
next
  assume "inb gs x y \<and> cellOf g x y = r"
  then show "floodFill gs g x y (cellOf g x y) r = Inr g"
    by (subst floodFill.simps) simp
next
  assume a: "inb gs x y \<and> cellOf g x y \<noteq> r"
  let ?t = "cellOf g x y"
  from a have ne: "?t \<noteq> r" and ib: "inb gs x y" by auto
  from floodFill_fillRel[OF assms ne, of x y] ib obtain g' where
    res: "floodFill gs g x y ?t r = Inr g'" and
    rel: "fillRel gs ?t r {(x, y)} g g'" and
    st: "cellOf g' x y \<noteq> ?t" by blast
  have cells: "cellOf g' i j = (if region gs g ?t (x, y) (i, j) then r else cellOf g i j)"
    if ij: "inb gs i j" for i j
  proof (cases "region gs g ?t (x, y) (i, j)")
    case True
    have "cellOf g' (fst (i, j)) (snd (i, j)) = r"
      by (rule fillRel_covers[OF rel ne _ True]) (use st in simp)
    with True show ?thesis by simp
  next
    case False
    have "cellOf g' i j = cellOf g i j"
    proof (rule ccontr)
      assume "cellOf g' i j \<noteq> cellOf g i j"
      with rel ij have "\<exists>a\<in>{(x, y)}. region gs g ?t a (i, j)" by (rule fillRel_cell(3))
      with False show False by simp
    qed
    with False show ?thesis by simp
  qed
  have "wf_grid gs g'" using rel by (simp add: fillRel_def)
  with res cells show "\<exists>g'. floodFill gs g x y ?t r = Inr g' \<and> wf_grid gs g' \<and>
      (\<forall>i j. inb gs i j \<longrightarrow> cellOf g' i j = (if region gs g ?t (x, y) (i, j) then r else cellOf g i j))"
    by blast
qed

theorem floodFill_recolours_region_witness:
  "wf_grid 2 [[[], []], [[], ''#000000'']] \<and>
   floodFill 2 [[[], []], [[], ''#000000'']] 0 0 [] ''#ff6b00'' =
     Inr [[''#ff6b00'', ''#ff6b00''], [''#ff6b00'', ''#000000'']] \<and>
   (\<exists>g'. floodFill 2 [[[], []], [[], ''#000000'']] 0 0 [] ''#ff6b00'' = Inr g' \<and> wf_grid 2 g' \<and>
         (\<forall>i j. inb 2 i j \<longrightarrow>
            cellOf g' i j = (if region 2 [[[], []], [[], ''#000000'']] [] (0, 0) (i, j) then ''#ff6b00''
                             else cellOf [[[], []], [[], ''#000000'']] i j)))"
proof -
  let ?g = "[[[], []], [[], ''#000000'']] :: PixelGrid"
  have h: "wf_grid 2 ?g" by (simp add: wf_grid_def)
  have c: "cellOf ?g 0 0 = []" by (simp add: cellOf_def)
  have i: "inb 2 0 0 \<and> cellOf ?g 0 0 \<noteq> ''#ff6b00''" by (simp add: inb_def cellOf_def)
  have v: "floodFill 2 ?g 0 0 [] ''#ff6b00'' = Inr [[''#ff6b00'', ''#ff6b00''], [''#ff6b00'', ''#000000'']]"
    by code_simp
  from floodFill_recolours_region[OF h, of 0 0 "[]" "''#ff6b00''"] i
  have "\<exists>g'. floodFill 2 ?g 0 0 (cellOf ?g 0 0) ''#ff6b00'' = Inr g' \<and> wf_grid 2 g' \<and>
         (\<forall>i j. inb 2 i j \<longrightarrow>
            cellOf g' i j = (if region 2 ?g (cellOf ?g 0 0) (0, 0) (i, j) then ''#ff6b00'' else cellOf ?g i j))"
    by blast
  then show ?thesis using h v unfolding c by blast
qed

text \<open>
  The scenario of the specification: a 4 x 4 grid, green except for the empty cell
  \<open>(3, 3)\<close>; filling from \<open>(0, 0)\<close> with yellow turns the fifteen green cells yellow and
  leaves \<open>(3, 3)\<close> empty.
\<close>

lemma floodFill_scenario:
  "floodFill 4
     [[''#00ff99'', ''#00ff99'', ''#00ff99'', ''#00ff99''],
      [''#00ff99'', ''#00ff99'', ''#00ff99'', ''#00ff99''],
      [''#00ff99'', ''#00ff99'', ''#00ff99'', ''#00ff99''],
      [''#00ff99'', ''#00ff99'', ''#00ff99'', []]]
     0 0 ''#00ff99'' ''#ffff00'' =
   Inr [[''#ffff00'', ''#ffff00'', ''#ffff00'', ''#ffff00''],
        [''#ffff00'', ''#ffff00'', ''#ffff00'', ''#ffff00''],
        [''#ffff00'', ''#ffff00'', ''#ffff00'', ''#ffff00''],
        [''#ffff00'', ''#ffff00'', ''#ffff00'', []]]"
  by code_simp

section \<open>Depth of the recursion of flood fill\<close>

lemma count_list_le_length: "count_list row t \<le> length row"
  by (induction row) auto

lemma cnt_le_area: "wf_grid gs g \<Longrightarrow> cnt t g \<le> gs * gs"
proof -
  assume wf: "wf_grid gs g"
  have "sum_list (map (\<lambda>row. count_list row t) g) \<le> sum_list (map (\<lambda>row. gs) g)"
    using wf by (intro sum_list_mono) (auto simp: wf_grid_def list_all_iff intro: order_trans[OF count_list_le_length])
  also have "\<dots> = length g * gs" by (simp add: sum_list_triv)
  finally show ?thesis using wf by (simp add: cnt_def wf_grid_def)
qed

lemma floodFillDepth_le_cnt: "floodFillDepth gs g x y t r \<le> cnt t g + 1"
proof (induction gs g x y t r rule: floodFillDepth.induct)
  case (1 gs g x y t r)
  show ?case
  proof (cases "t = r \<or> x < 0 \<or> x \<ge> int gs \<or> y < 0 \<or> y \<ge> int gs \<or> \<not> nat y < length g
                \<or> \<not> (nat x < length (g ! nat y) \<and> g ! nat y ! nat x = t)")
    case True
    then show ?thesis by (subst floodFillDepth.simps) auto
  next
    case False
    let ?g0 = "g[nat y := (g ! nat y)[nat x := r]]"
    from False have guards: "t \<noteq> r" "\<not> (x < 0 \<or> x \<ge> int gs \<or> y < 0 \<or> y \<ge> int gs)"
       "\<not> \<not> nat y < length g" "\<not> \<not> (nat x < length (g ! nat y) \<and> g ! nat y ! nat x = t)"
      by auto
    from False have c0: "Suc (cnt t ?g0) = cnt t g"
      by (intro cnt_paint) auto
    note ih = "1.IH"[OF guards refl]
    have d1: "floodFillDepth gs ?g0 (x + 1) y t r \<le> cnt t g" using ih(1) c0 by simp
    show ?thesis
    proof (cases "floodFill gs ?g0 (x + 1) y t r")
      case (Inl e)
      then show ?thesis using d1 guards by (subst floodFillDepth.simps) (simp add: Let_def)
    next
      case s1: (Inr g1)
      have c1: "cnt t g1 \<le> cnt t ?g0" using s1 by (rule floodFill_cnt)
      have d2: "floodFillDepth gs g1 (x - 1) y t r \<le> cnt t g" using ih(2)[OF refl s1] c0 c1 by simp
      show ?thesis
      proof (cases "floodFill gs g1 (x - 1) y t r")
        case (Inl e)
        then show ?thesis using d1 d2 s1 guards by (subst floodFillDepth.simps) (simp add: Let_def)
      next
        case s2: (Inr g2)
        have c2: "cnt t g2 \<le> cnt t g1" using s2 by (rule floodFill_cnt)
        have d3: "floodFillDepth gs g2 x (y + 1) t r \<le> cnt t g" using ih(3)[OF refl s1 refl s2] c0 c1 c2 by simp
        show ?thesis
        proof (cases "floodFill gs g2 x (y + 1) t r")
          case (Inl e)
          then show ?thesis using d1 d2 d3 s1 s2 guards by (subst floodFillDepth.simps) (simp add: Let_def)
        next
          case s3: (Inr g3)
          have c3: "cnt t g3 \<le> cnt t g2" using s3 by (rule floodFill_cnt)
          have d4: "floodFillDepth gs g3 x (y - 1) t r \<le> cnt t g"
            using ih(4)[OF refl s1 refl s2 refl s3] c0 c1 c2 c3 by simp
          show ?thesis using d1 d2 d3 d4 s1 s2 s3 guards by (subst floodFillDepth.simps) (simp add: Let_def)
        qed
      qed
    qed
  qed
qed


text \<open>
  C2, as the code has it. \<^verbatim>\<open>floodFill\<close> is directly recursive; it keeps no frontier and no
  visited set, the recoloured cells themselves stop the traversal. Its call stack is
  never deeper than one frame more than the number of cells of the target colour, hence
  than \<open>gridSize\<^sup>2 + 1\<close> frames on a well-formed grid.
\<close>

theorem floodFillDepth_bounded:
  "floodFillDepth gs g x y t r \<le> cnt t g + 1 \<and>
   (wf_grid gs g \<longrightarrow> floodFillDepth gs g x y t r \<le> gs * gs + 1)"
  using floodFillDepth_le_cnt[of gs g x y t r] cnt_le_area[of gs g t] by auto

theorem floodFillDepth_bounded_witness:
  "wf_grid 2 [[[], []], [[], []]] \<and> floodFillDepth 2 [[[], []], [[], []]] 0 0 [] ''#ff6b00'' \<le> 2 * 2 + 1"
proof -
  have h: "wf_grid 2 [[[], []], [[], []]]" by (simp add: wf_grid_def)
  with floodFillDepth_bounded[of 2 "[[[], []], [[], []]]" 0 0 "[]" "''#ff6b00''"]
  show ?thesis by simp
qed

text \<open>
  C2, as stated, fails: filling the empty 2 x 2 grid from \<open>(0, 0)\<close> nests five calls of
  \<^verbatim>\<open>floodFill\<close>, one per cell of the region and one that returns at a guard. A traversal
  with an explicit frontier would not nest calls at all.
\<close>

theorem floodFill_nests_calls:
  "floodFillDepth 2 [[[], []], [[], []]] 0 0 [] ''#ff6b00'' = 5"
  by code_simp

section \<open>History: commit, undo and redo\<close>

lemma jsonClone_ident: "jsonClone ls = ls"
  by (simp add: jsonClone_def map_idI)

lemma slice0_cursor:
  "0 \<le> c \<Longrightarrow> c < int (length xs) \<Longrightarrow> slice0 xs (c + 1) = take (nat c + 1) xs"
  by (simp add: slice0_def nat_add_distrib)

lemma addToHistory_last:
  "history (addToHistory s ls n) \<noteq> [] \<and>
   historyIndex (addToHistory s ls n) = int (length (history (addToHistory s ls n))) - 1 \<and>
   last (history (addToHistory s ls n)) = \<lparr>layers = ls, gridSize = n\<rparr>"
proof -
  let ?p = "slice0 (history s) (historyIndex s + 1)"
  let ?a = "\<lparr>layers = ls, gridSize = n\<rparr>"
  have t: "tl (?p @ [?a]) = tl ?p @ [?a]" if "MAX_HISTORY < length (?p @ [?a])"
    using that by (cases ?p) (simp_all add: MAX_HISTORY_def)
  show ?thesis
    by (cases "MAX_HISTORY < length (?p @ [?a])")
       (simp_all add: addToHistory_def Let_def jsonClone_ident t del: length_append)
qed

lemma nat_int_pred: "nat (int n - 1) = n - 1"
  by simp

lemma addToHistory_document: "document (addToHistory s ls n) = document s"
  by (simp add: addToHistory_def Let_def document_def)

lemma undos_cursor:
  "0 \<le> historyIndex s \<Longrightarrow> historyIndex s < int (length (history s)) \<Longrightarrow>
   \<exists>u. undos k s = Inr u \<and> history u = history s \<and>
       historyIndex u = max 0 (historyIndex s - int k)"
proof (induction k arbitrary: s)
  case 0
  then show ?case by simp
next
  case (Suc k)
  show ?case
  proof (cases "historyIndex s > 0")
    case False
    with Suc.prems have u: "undo s = Inr s" by (simp add: undo_def)
    from Suc.IH[OF Suc.prems] obtain v where "undos k s = Inr v" "history v = history s"
      "historyIndex v = max 0 (historyIndex s - int k)" by blast
    with u False Suc.prems show ?thesis by (auto simp: max_def)
  next
    case True
    let ?u = "s\<lparr>layers := jsonClone (layers (history s ! nat (historyIndex s - 1))),
                 gridSize := gridSize (history s ! nat (historyIndex s - 1)),
                 historyIndex := historyIndex s - 1\<rparr>"
    from True Suc.prems have u: "undo s = Inr ?u" by (simp add: undo_def Let_def)
    have "0 \<le> historyIndex ?u" "historyIndex ?u < int (length (history ?u))"
      using True Suc.prems by simp_all
    from Suc.IH[OF this] obtain v where "undos k ?u = Inr v" "history v = history ?u"
      "historyIndex v = max 0 (historyIndex ?u - int k)" by blast
    with u True show ?thesis by (auto simp: max_def)
  qed
qed

text \<open>
  C3. With the cursor inside the history, \<^verbatim>\<open>addToHistory\<close> keeps the entries up to the
  cursor, appends the snapshot, drops the oldest entry when that makes more than
  \<open>MAX_HISTORY = 20\<close> entries, and leaves the cursor on the last entry, which is the
  snapshot. A history of at most 20 entries has at most 20 entries afterwards, and any
  number of undos from there succeeds, leaves the entries alone and ends on an entry
  less than 20 steps behind the committed one.
\<close>

theorem addToHistory_commit:
  assumes "0 \<le> historyIndex s" and "historyIndex s < int (length (history s))"
  shows "history (addToHistory s newLayers n) =
           (if MAX_HISTORY < nat (historyIndex s) + 2
            then tl (take (nat (historyIndex s) + 1) (history s) @ [\<lparr>layers = newLayers, gridSize = n\<rparr>])
            else take (nat (historyIndex s) + 1) (history s) @ [\<lparr>layers = newLayers, gridSize = n\<rparr>]) \<and>
         historyIndex (addToHistory s newLayers n) = int (length (history (addToHistory s newLayers n))) - 1 \<and>
         history (addToHistory s newLayers n) ! nat (historyIndex (addToHistory s newLayers n)) =
           \<lparr>layers = newLayers, gridSize = n\<rparr> \<and>
         (length (history s) \<le> MAX_HISTORY \<longrightarrow>
            length (history (addToHistory s newLayers n)) \<le> MAX_HISTORY \<and>
            (\<forall>k. \<exists>u. undos k (addToHistory s newLayers n) = Inr u \<and>
                   history u = history (addToHistory s newLayers n) \<and>
                   historyIndex u = max 0 (historyIndex (addToHistory s newLayers n) - int k) \<and>
                   historyIndex (addToHistory s newLayers n) - historyIndex u < int MAX_HISTORY))"
proof -
  let ?s' = "addToHistory s newLayers n"
  let ?snap = "\<lparr>layers = newLayers, gridSize = n\<rparr>"
  let ?pushed = "take (nat (historyIndex s) + 1) (history s) @ [?snap]"
  have len: "length ?pushed = nat (historyIndex s) + 2" using assms by simp
  have h: "history ?s' = (if MAX_HISTORY < nat (historyIndex s) + 2 then tl ?pushed else ?pushed)"
    using assms len by (simp add: addToHistory_def Let_def jsonClone_ident slice0_cursor)
  note l = addToHistory_last[of s newLayers n]
  have idx: "historyIndex ?s' = int (length (history ?s')) - 1" using l by simp
  have "nat (historyIndex ?s') = length (history ?s') - 1" using idx by simp
  moreover have "last (history ?s') = history ?s' ! (length (history ?s') - 1)"
    using l by (intro last_conv_nth) simp
  ultimately have "history ?s' ! nat (historyIndex ?s') = last (history ?s')" by simp
  then have at: "history ?s' ! nat (historyIndex ?s') = ?snap" using l by simp
  have bound: "length (history ?s') \<le> MAX_HISTORY" if "length (history s) \<le> MAX_HISTORY"
    using that assms h by (auto simp: MAX_HISTORY_def)
  have und: "\<exists>u. undos k ?s' = Inr u \<and> history u = history ?s' \<and>
                historyIndex u = max 0 (historyIndex ?s' - int k) \<and>
                historyIndex ?s' - historyIndex u < int MAX_HISTORY"
    if le: "length (history s) \<le> MAX_HISTORY" for k
  proof -
    have p1: "0 \<le> historyIndex ?s'" using l by (cases "history ?s'") auto
    have p2: "historyIndex ?s' < int (length (history ?s'))" using idx by simp
    from undos_cursor[OF p1 p2, of k] obtain u where u: "undos k ?s' = Inr u" "history u = history ?s'"
      "historyIndex u = max 0 (historyIndex ?s' - int k)" by blast
    have "historyIndex ?s' - historyIndex u < int MAX_HISTORY"
      using u(3) idx bound[OF le] p1 by (auto simp: max_def)
    with u show ?thesis by blast
  qed
  show ?thesis using h idx at bound und by blast
qed

theorem addToHistory_commit_witness:
  "0 \<le> historyIndex (initHistory initialEditor) \<and>
   historyIndex (initHistory initialEditor) < int (length (history (initHistory initialEditor))) \<and>
   length (history (initHistory initialEditor)) \<le> MAX_HISTORY \<and>
   length (history (addToHistory (initHistory initialEditor) [] 8)) \<le> MAX_HISTORY \<and>
   history (addToHistory (initHistory initialEditor) [] 8) !
     nat (historyIndex (addToHistory (initHistory initialEditor) [] 8)) = \<lparr>layers = [], gridSize = 8\<rparr>"
proof -
  have h1: "0 \<le> historyIndex (initHistory initialEditor)"
    by (simp add: initHistory_def initialEditor_def)
  have h2: "historyIndex (initHistory initialEditor) < int (length (history (initHistory initialEditor)))"
    by (simp add: initHistory_def initialEditor_def)
  have h3: "length (history (initHistory initialEditor)) \<le> MAX_HISTORY"
    by (simp add: initHistory_def initialEditor_def MAX_HISTORY_def)
  show ?thesis
    using h1 h2 h3 addToHistory_commit[OF h1 h2, of "[]" 8] by blast
qed

lemma cursor_last_commits:
  assumes "history s \<noteq> []" and "historyIndex s = int (length (history s)) - 1"
  shows "history (commits s docs) \<noteq> [] \<and>
         historyIndex (commits s docs) = int (length (history (commits s docs))) - 1"
  using assms
proof (induction docs arbitrary: s)
  case Nil
  then show ?case by simp
next
  case (Cons d docs)
  show ?case using Cons.IH[of "addToHistory s (layers d) (gridSize d)"] addToHistory_last[of s "layers d" "gridSize d"]
    by simp
qed

lemma undo_redo_general:
  assumes "history s \<noteq> []" and "historyIndex s = int (length (history s)) - 1"
    and "document s = history s ! nat (historyIndex s)"
  shows "\<exists>u. undo s = Inr u \<and> redo u = Inr s"
proof (cases "historyIndex s > 0")
  case False
  then have "undo s = Inr s" by (simp add: undo_def)
  moreover have "redo s = Inr s" using assms(2) by (simp add: redo_def)
  ultimately show ?thesis by simp
next
  case True
  let ?c = "historyIndex s"
  let ?u = "s\<lparr>layers := jsonClone (layers (history s ! nat (?c - 1))),
               gridSize := gridSize (history s ! nat (?c - 1)),
               historyIndex := ?c - 1\<rparr>"
  have u: "undo s = Inr ?u" using True assms(2) by (simp add: undo_def Let_def)
  have d: "layers (history s ! nat ?c) = layers s" "gridSize (history s ! nat ?c) = gridSize s"
    using assms(3) by (simp_all add: document_def flip: assms(3))
  have "redo ?u = Inr s"
    using True assms(1,2) d by (simp add: redo_def Let_def jsonClone_ident)
  with u show ?thesis by simp
qed

text \<open>
  C4. Take a history and cursor as the initialising effect and any run of commits leave
  them, and a live document equal to the entry at the cursor. Then \<^verbatim>\<open>undo\<close> followed by
  \<^verbatim>\<open>redo\<close> gives back the very state before the undo, live layers and grid size included.
  \<^verbatim>\<open>undo\<close> changes nothing when the cursor is 0, and \<^verbatim>\<open>redo\<close> changes nothing when the cursor
  is on the last entry.
\<close>

theorem undo_redo_roundtrip:
  assumes "history s0 = []"
    and "history s = history (commits (initHistory s0) docs)"
    and "historyIndex s = historyIndex (commits (initHistory s0) docs)"
    and "document s = history s ! nat (historyIndex s)"
  shows "(\<exists>u. undo s = Inr u \<and> redo u = Inr s) \<and>
         (historyIndex e = 0 \<longrightarrow> undo e = Inr e) \<and>
         (historyIndex e' = int (length (history e')) - 1 \<longrightarrow> redo e' = Inr e')"
proof -
  have "history (initHistory s0) \<noteq> []" "historyIndex (initHistory s0) = int (length (history (initHistory s0))) - 1"
    using assms(1) by (simp_all add: initHistory_def)
  from cursor_last_commits[OF this, of docs] assms(2,3)
  have "history s \<noteq> []" "historyIndex s = int (length (history s)) - 1" by simp_all
  then have "\<exists>u. undo s = Inr u \<and> redo u = Inr s" using assms(4) by (rule undo_redo_general)
  moreover have "historyIndex e = 0 \<longrightarrow> undo e = Inr e" by (simp add: undo_def)
  moreover have "historyIndex e' = int (length (history e')) - 1 \<longrightarrow> redo e' = Inr e'" by (simp add: redo_def)
  ultimately show ?thesis by blast
qed

theorem undo_redo_roundtrip_witness:
  "history initialEditor = [] \<and>
   document (commits (initHistory initialEditor) [\<lparr>layers = layers initialEditor, gridSize = 16\<rparr>]) =
     history (commits (initHistory initialEditor) [\<lparr>layers = layers initialEditor, gridSize = 16\<rparr>]) !
       nat (historyIndex (commits (initHistory initialEditor) [\<lparr>layers = layers initialEditor, gridSize = 16\<rparr>])) \<and>
   (\<exists>u. undo (commits (initHistory initialEditor) [\<lparr>layers = layers initialEditor, gridSize = 16\<rparr>]) = Inr u \<and>
        redo u = Inr (commits (initHistory initialEditor) [\<lparr>layers = layers initialEditor, gridSize = 16\<rparr>]))"
proof -
  let ?s = "commits (initHistory initialEditor) [\<lparr>layers = layers initialEditor, gridSize = 16\<rparr>]"
  have h1: "history initialEditor = []" by (simp add: initialEditor_def)
  have h2: "document ?s = history ?s ! nat (historyIndex ?s)"
    by (simp add: initHistory_def initialEditor_def addToHistory_def Let_def slice0_def
          MAX_HISTORY_def DEFAULT_GRID_SIZE_def document_def jsonClone_ident)
  show ?thesis
    using h1 h2 undo_redo_roundtrip[OF h1 refl refl h2] by blast
qed

section \<open>Facts about the helpers\<close>

lemma findIndex_Some:
  "findIndex P ls = Some k \<Longrightarrow> k < length ls \<and> P (ls ! k) \<and> (\<forall>j<k. \<not> P (ls ! j))"
proof (induction ls arbitrary: k)
  case Nil
  then show ?case by simp
next
  case (Cons l ls)
  show ?case
  proof (cases "P l")
    case True
    with Cons.prems show ?thesis by simp
  next
    case False
    with Cons.prems obtain k' where k': "findIndex P ls = Some k'" "k = Suc k'" by auto
    from Cons.IH[OF k'(1)] False k'(2) show ?thesis by (auto simp: less_Suc_eq_0_disj)
  qed
qed

lemma floodFill_total:
  assumes "wf_grid gs g"
  shows "\<exists>g'. floodFill gs g x y t r = Inr g' \<and> wf_grid gs g'"
proof (cases "t = r")
  case True
  then have "floodFill gs g x y t r = Inr g" by (subst floodFill.simps) simp
  with assms show ?thesis by simp
next
  case False
  from floodFill_fillRel[OF assms False, of x y] show ?thesis by (auto simp: fillRel_def)
qed

lemma readCell_wf:
  "wf_grid gs g \<Longrightarrow> inb gs x y \<Longrightarrow> readCell g x y = Inr (cellOf g x y)"
  using wf_grid_row[of gs g x y] by (simp add: readCell_def cellOf_def)

lemma list_update_grid_neq:
  "k < length ls \<Longrightarrow> (ls \<noteq> ls[k := (ls ! k)\<lparr>grid := g'\<rparr>]) = (g' \<noteq> grid (ls ! k))"
proof -
  assume k: "k < length ls"
  have "(ls[k := (ls ! k)\<lparr>grid := g'\<rparr>] = ls) = ((ls ! k)\<lparr>grid := g'\<rparr> = ls ! k)"
    using k by (metis list_update_id nth_list_update_eq)
  also have "\<dots> = (g' = grid (ls ! k))"
    by (cases "ls ! k") auto
  finally show ?thesis by auto
qed

lemma findIndex_map_cong:
  "map P ls = map P' ls' \<Longrightarrow> findIndex P ls = findIndex P' ls'"
proof (induction ls arbitrary: ls')
  case Nil
  then show ?case by simp
next
  case (Cons l ls)
  then obtain l' ms where ls': "ls' = l' # ms" by (cases ls') auto
  with Cons.prems have "P l = P' l'" "map P ls = map P' ms" by simp_all
  with Cons.IH[of ms] ls' show ?case by simp
qed

lemma findIndex_update_grid:
  "findIndex (\<lambda>l. id_layer l = i) (ls[a := (ls ! a)\<lparr>grid := g\<rparr>]) = findIndex (\<lambda>l. id_layer l = i) ls"
proof (cases "a < length ls")
  case True
  have "map (\<lambda>l. id_layer l = i) (ls[a := (ls ! a)\<lparr>grid := g\<rparr>]) = map (\<lambda>l. id_layer l = i) ls"
    using True by (simp add: map_update list_update_same_conv)
  then show ?thesis by (rule findIndex_map_cong)
next
  case False
  then have "length ls \<le> a" by simp
  then have "ls[a := (ls ! a)\<lparr>grid := g\<rparr>] = ls" by (rule list_update_beyond)
  then show ?thesis by simp
qed

lemma wf_layers_update:
  "wf_layers gs ls \<Longrightarrow> wf_grid gs g \<Longrightarrow> wf_layers gs (ls[a := (ls ! a)\<lparr>grid := g\<rparr>])"
  by (cases "a < length ls") (auto simp: wf_layers_def list_all_length nth_list_update)

lemma pickerLoop_found:
  assumes "wf_layers gs ls" and "inb gs x y"
  shows "n \<le> length ls \<Longrightarrow> k < n \<Longrightarrow> visible (ls ! k) \<Longrightarrow> cellOf (grid (ls ! k)) x y \<noteq> [] \<Longrightarrow>
         (\<And>j. k < j \<Longrightarrow> j < n \<Longrightarrow> visible (ls ! j) \<Longrightarrow> cellOf (grid (ls ! j)) x y = []) \<Longrightarrow>
         pickerLoop ls x y n = Inr (Some (cellOf (grid (ls ! k)) x y))"
proof (induction n)
  case 0
  then show ?case by simp
next
  case (Suc n)
  have wfn: "wf_grid gs (grid (ls ! n))"
    using assms(1) Suc.prems(1) by (simp add: wf_layers_def list_all_length)
  note row = wf_grid_row[OF wfn assms(2)]
  show ?case
  proof (cases "k = n")
    case True
    with Suc.prems row show ?thesis by (simp add: cellOf_def)
  next
    case False
    with Suc.prems have kn: "k < n" by simp
    have ih: "pickerLoop ls x y n = Inr (Some (cellOf (grid (ls ! k)) x y))"
      using Suc.prems kn by (intro Suc.IH) simp_all
    have "visible (ls ! n) \<Longrightarrow> cellOf (grid (ls ! n)) x y = []"
      using Suc.prems(5)[of n] kn by simp
    with ih row show ?thesis by (simp add: cellOf_def)
  qed
qed

lemma pickerLoop_none:
  assumes "wf_layers gs ls" and "inb gs x y"
  shows "n \<le> length ls \<Longrightarrow> (\<And>j. j < n \<Longrightarrow> visible (ls ! j) \<Longrightarrow> cellOf (grid (ls ! j)) x y = []) \<Longrightarrow>
         pickerLoop ls x y n = Inr None"
proof (induction n)
  case 0
  then show ?case by simp
next
  case (Suc n)
  have wfn: "wf_grid gs (grid (ls ! n))"
    using assms(1) Suc.prems(1) by (simp add: wf_layers_def list_all_length)
  note row = wf_grid_row[OF wfn assms(2)]
  have ih: "pickerLoop ls x y n = Inr None" using Suc.prems by (intro Suc.IH) simp_all
  have "visible (ls ! n) \<Longrightarrow> cellOf (grid (ls ! n)) x y = []" using Suc.prems(2)[of n] by simp
  with ih row show ?case by (simp add: cellOf_def)
qed

section \<open>The bucket click and its snapshot\<close>

text \<open>
  C5. A click with the bucket on a visible active layer runs \<^verbatim>\<open>floodFill\<close> on the grid that the
  live \<^verbatim>\<open>layers\<close> hold, so the live layers afterwards carry the filled grid, while the
  snapshot that \<^verbatim>\<open>addToHistory\<close> stores at the new cursor is built from the copy made before
  the fill: it is the document as it was before the click. The entry at the cursor
  differs from the live document exactly when the fill changed the grid.
\<close>

theorem bucket_snapshot_is_prefill:
  assumes "tool s = Bucket" and "inb (gridSize s) x y"
    and "findIndex (\<lambda>l. id_layer l = activeLayerId s) (layers s) = Some k"
    and "visible (layers s ! k)"
    and "wf_grid (gridSize s) (grid (layers s ! k))"
  shows "\<exists>g' s'.
           floodFill (gridSize s) (grid (layers s ! k)) x y (cellOf (grid (layers s ! k)) x y) (selectedColor s) = Inr g' \<and>
           handleDraw s x y True = Inr s' \<and>
           layers s' = (layers s)[k := (layers s ! k)\<lparr>grid := g'\<rparr>] \<and>
           gridSize s' = gridSize s \<and>
           history s' ! nat (historyIndex s') = \<lparr>layers = layers s, gridSize = gridSize s\<rparr> \<and>
           (history s' ! nat (historyIndex s') \<noteq> document s' \<longleftrightarrow> g' \<noteq> grid (layers s ! k))"
proof -
  let ?l = "layers s ! k"
  let ?t = "cellOf (grid ?l) x y"
  from floodFill_total[OF assms(5), of x y ?t "selectedColor s"] obtain g' where
    ff: "floodFill (gridSize s) (grid ?l) x y ?t (selectedColor s) = Inr g'" by blast
  have k: "k < length (layers s)" using findIndex_Some[OF assms(3)] by simp
  have same: "(layers s)[k := ?l\<lparr>grid := grid ?l\<rparr>] = layers s" by simp
  let ?live = "s\<lparr>layers := (layers s)[k := ?l\<lparr>grid := g'\<rparr>]\<rparr>"
  let ?s' = "addToHistory ?live (layers s) (gridSize s)"
  have rc: "readCell (grid ?l) x y = Inr ?t" using assms(5,2) by (rule readCell_wf)
  have bounds: "\<not> (x < 0 \<or> x \<ge> int (gridSize s) \<or> y < 0 \<or> y \<ge> int (gridSize s))"
    using assms(2) by (simp add: inb_def)
  have hd: "handleDraw s x y True = Inr ?s'"
    unfolding handleDraw_def using bounds assms(1,3,4) rc ff same
    by (simp add: Let_def floodFillAt_def)
  note l = addToHistory_last[of ?live "layers s" "gridSize s"]
  have "nat (historyIndex ?s') = length (history ?s') - 1" using l by simp
  moreover have "last (history ?s') = history ?s' ! (length (history ?s') - 1)"
    using l by (intro last_conv_nth) simp
  ultimately have at: "history ?s' ! nat (historyIndex ?s') = \<lparr>layers = layers s, gridSize = gridSize s\<rparr>"
    using l by simp
  have doc: "document ?s' = \<lparr>layers = (layers s)[k := ?l\<lparr>grid := g'\<rparr>], gridSize = gridSize s\<rparr>"
    by (simp add: addToHistory_document) (simp add: document_def)
  have ls: "layers ?s' = (layers s)[k := ?l\<lparr>grid := g'\<rparr>]" "gridSize ?s' = gridSize s"
    by (simp_all add: addToHistory_def Let_def)
  have "(history ?s' ! nat (historyIndex ?s') \<noteq> document ?s') = (g' \<noteq> grid ?l)"
    unfolding at doc using list_update_grid_neq[OF k, of g'] by simp
  with ff hd ls at show ?thesis by blast
qed

theorem bucket_snapshot_is_prefill_witness:
  "tool fillClickEditor = Bucket \<and> inb (gridSize fillClickEditor) 0 0 \<and>
   findIndex (\<lambda>l. id_layer l = activeLayerId fillClickEditor) (layers fillClickEditor) = Some 0 \<and>
   visible (layers fillClickEditor ! 0) \<and>
   wf_grid (gridSize fillClickEditor) (grid (layers fillClickEditor ! 0)) \<and>
   (\<exists>s'. handleDraw fillClickEditor 0 0 True = Inr s' \<and>
         history s' ! nat (historyIndex s') =
           \<lparr>layers = layers fillClickEditor, gridSize = gridSize fillClickEditor\<rparr>)"
proof -
  have h1: "tool fillClickEditor = Bucket" by (simp add: fillClickEditor_def)
  have h2: "inb (gridSize fillClickEditor) 0 0" by (simp add: fillClickEditor_def inb_def)
  have h3: "findIndex (\<lambda>l. id_layer l = activeLayerId fillClickEditor) (layers fillClickEditor) = Some 0"
    by (simp add: fillClickEditor_def)
  have h4: "visible (layers fillClickEditor ! 0)" by (simp add: fillClickEditor_def)
  have h5: "wf_grid (gridSize fillClickEditor) (grid (layers fillClickEditor ! 0))"
    by (simp add: fillClickEditor_def wf_grid_def)
  show ?thesis
    using h1 h2 h3 h4 h5 bucket_snapshot_is_prefill[OF h1 h2 h3 h4 h5] by blast
qed

section \<open>Deleting a layer, setting an opacity\<close>

lemma filter_distinct_le1:
  "distinct (map f xs) \<Longrightarrow> length (filter (\<lambda>l. f l = i) xs) \<le> 1"
proof (induction xs)
  case Nil
  then show ?case by simp
next
  case (Cons a xs)
  have d: "distinct (map f xs)" "f a \<notin> f ` set xs" using Cons.prems by simp_all
  show ?case
  proof (cases "f a = i")
    case True
    have "\<forall>l\<in>set xs. f l \<noteq> i" using d(2) True by blast
    then have "filter (\<lambda>l. f l = i) xs = []" by (simp add: filter_empty_conv)
    with True show ?thesis by simp
  next
    case False
    with Cons.IH[OF d(1)] show ?thesis by simp
  qed
qed

lemma filter_distinct_member:
  "distinct (map f xs) \<Longrightarrow> i \<in> f ` set xs \<Longrightarrow> length (filter (\<lambda>l. f l = i) xs) = 1"
proof -
  assume d: "distinct (map f xs)" and m: "i \<in> f ` set xs"
  then have "filter (\<lambda>l. f l = i) xs \<noteq> []" by (auto simp: filter_empty_conv)
  then have "length (filter (\<lambda>l. f l = i) xs) \<noteq> 0" by simp
  with filter_distinct_le1[OF d, of i] show ?thesis by linarith
qed

text \<open>
  C6, as the code has it. On a document with one layer \<^verbatim>\<open>deleteLayer\<close> returns at its guard:
  it raises nothing and leaves the whole state, history included, as it was. On a
  document with more than one layer, no two of the same id, it keeps exactly the layers
  whose id differs from the given one, in their order: one layer fewer when a layer has
  that id, the same layers when none has.
\<close>

theorem deleteLayer_last_layer_noop:
  "(length (layers s) = 1 \<longrightarrow> deleteLayer s i = Inr s) \<and>
   (1 < length (layers s) \<and> distinct (map id_layer (layers s)) \<longrightarrow>
      (\<exists>s'. deleteLayer s i = Inr s' \<and>
            layers s' = filter (\<lambda>l. id_layer l \<noteq> i) (layers s) \<and>
            gridSize s' = gridSize s \<and>
            (i \<in> id_layer ` set (layers s) \<longrightarrow> length (layers s') + 1 = length (layers s)) \<and>
            (i \<notin> id_layer ` set (layers s) \<longrightarrow> layers s' = layers s)))"
proof (intro conjI impI)
  assume "length (layers s) = 1"
  then show "deleteLayer s i = Inr s" by (simp add: deleteLayer_def)
next
  assume a: "1 < length (layers s) \<and> distinct (map id_layer (layers s))"
  let ?new = "filter (\<lambda>l. id_layer l \<noteq> i) (layers s)"
  have split: "length (filter (\<lambda>l. id_layer l = i) (layers s)) + length ?new = length (layers s)"
    using sum_length_filter_compl[of "\<lambda>l. id_layer l = i" "layers s"] by simp
  have le1: "length (filter (\<lambda>l. id_layer l = i) (layers s)) \<le> 1"
    using a by (intro filter_distinct_le1) simp
  have ne: "?new \<noteq> []" using split le1 a by auto
  let ?s' = "if activeLayerId s = i
             then addToHistory (s\<lparr>layers := ?new, activeLayerId := id_layer (last ?new)\<rparr>) ?new (gridSize s)
             else addToHistory (s\<lparr>layers := ?new\<rparr>) ?new (gridSize s)"
  have r: "deleteLayer s i = Inr ?s'" using a ne by (simp add: deleteLayer_def Let_def)
  have l: "layers ?s' = ?new" "gridSize ?s' = gridSize s"
    by (simp_all add: addToHistory_def Let_def)
  have m1: "length ?new + 1 = length (layers s)" if "i \<in> id_layer ` set (layers s)"
    using filter_distinct_member[of id_layer "layers s" i] a that split by simp
  have m2: "?new = layers s" if "i \<notin> id_layer ` set (layers s)"
    using that by (auto simp: filter_id_conv)
  show "\<exists>s'. deleteLayer s i = Inr s' \<and> layers s' = ?new \<and> gridSize s' = gridSize s \<and>
            (i \<in> id_layer ` set (layers s) \<longrightarrow> length (layers s') + 1 = length (layers s)) \<and>
            (i \<notin> id_layer ` set (layers s) \<longrightarrow> layers s' = layers s)"
    using r l m1 m2 by (intro exI[of _ ?s']) simp
qed

theorem deleteLayer_last_layer_noop_witness:
  "length (layers initialEditor) = 1 \<and> deleteLayer initialEditor ''layer-1'' = Inr initialEditor \<and>
   1 < length (layers hiddenActiveEditor) \<and> distinct (map id_layer (layers hiddenActiveEditor)) \<and>
   ''layer-1'' \<in> id_layer ` set (layers hiddenActiveEditor) \<and>
   (\<exists>s'. deleteLayer hiddenActiveEditor ''layer-1'' = Inr s' \<and>
         length (layers s') + 1 = length (layers hiddenActiveEditor))"
proof -
  have h1: "length (layers initialEditor) = 1" by (simp add: initialEditor_def)
  have h2: "1 < length (layers hiddenActiveEditor) \<and> distinct (map id_layer (layers hiddenActiveEditor))"
    by (simp add: hiddenActiveEditor_def)
  have h3: "''layer-1'' \<in> id_layer ` set (layers hiddenActiveEditor)"
    by (simp add: hiddenActiveEditor_def)
  show ?thesis
    using h1 h2 h3 deleteLayer_last_layer_noop[of initialEditor "''layer-1''"]
      deleteLayer_last_layer_noop[of hiddenActiveEditor "''layer-1''"] by blast
qed

text \<open>
  C6, as stated, fails: deleting the only layer of the initial document does not fail
  with an error; the call returns normally.
\<close>

theorem deleteLayer_raises_nothing:
  "\<not> isl (deleteLayer initialEditor ''layer-1'')"
  by (simp add: deleteLayer_def initialEditor_def)

text \<open>
  C10, as the code has it. \<^verbatim>\<open>updateLayerOpacity\<close> never fails and never clamps: it stores
  the given value as it is in every layer of the given id and changes no other field
  and no other layer. The stored opacity therefore lies in \<open>[0, 100]\<close> when the given
  value does, which is what the slider of the component passes.
\<close>

theorem updateLayerOpacity_stores_value:
  "length (layers (updateLayerOpacity s i v)) = length (layers s) \<and>
   (\<forall>k<length (layers s).
      id_layer (layers (updateLayerOpacity s i v) ! k) = id_layer (layers s ! k) \<and>
      name (layers (updateLayerOpacity s i v) ! k) = name (layers s ! k) \<and>
      visible (layers (updateLayerOpacity s i v) ! k) = visible (layers s ! k) \<and>
      grid (layers (updateLayerOpacity s i v) ! k) = grid (layers s ! k) \<and>
      opacity (layers (updateLayerOpacity s i v) ! k) =
        (if id_layer (layers s ! k) = i then v else opacity (layers s ! k)) \<and>
      (id_layer (layers s ! k) = i \<and> 0 \<le> v \<and> v \<le> 100 \<longrightarrow>
         0 \<le> opacity (layers (updateLayerOpacity s i v) ! k) \<and>
         opacity (layers (updateLayerOpacity s i v) ! k) \<le> 100))"
  by (simp add: updateLayerOpacity_def)

theorem updateLayerOpacity_stores_value_witness:
  "0 < length (layers initialEditor) \<and> id_layer (layers initialEditor ! 0) = ''layer-1'' \<and>
   (0::int) \<le> 40 \<and> (40::int) \<le> 100 \<and>
   opacity (layers (updateLayerOpacity initialEditor ''layer-1'' 40) ! 0) = 40 \<and>
   0 \<le> opacity (layers (updateLayerOpacity initialEditor ''layer-1'' 40) ! 0) \<and>
   opacity (layers (updateLayerOpacity initialEditor ''layer-1'' 40) ! 0) \<le> 100"
proof -
  have h1: "0 < length (layers initialEditor)" by (simp add: initialEditor_def)
  have h2: "id_layer (layers initialEditor ! 0) = ''layer-1''" by (simp add: initialEditor_def)
  show ?thesis
    using h1 h2 updateLayerOpacity_stores_value[of initialEditor "''layer-1''" 40] by simp
qed

text \<open>
  C10, as stated, fails: the value 150 is neither clamped nor rejected, the layer holds
  an opacity of 150 afterwards.
\<close>

theorem updateLayerOpacity_stores_150:
  "opacity (layers (updateLayerOpacity initialEditor ''layer-1'' 150) ! 0) = 150"
  by (simp add: updateLayerOpacity_def initialEditor_def)

section \<open>Picking and painting\<close>

text \<open>
  C7, as the code has it. \<^verbatim>\<open>handleDraw\<close> returns before the picker branch when the active
  layer does not exist or is hidden. When the active layer exists and is visible, the
  picker at valid coordinates takes the colour of the topmost visible layer whose cell
  there is not empty, whichever layer is active, selects it and switches to the
  pencil; when no visible layer has a colour there, the state stays as it is. Nothing
  is raised in either case.
\<close>

theorem picker_takes_topmost_visible:
  assumes "tool s = Picker" and "inb (gridSize s) x y" and "wf_layers (gridSize s) (layers s)"
  shows "(findIndex (\<lambda>l. id_layer l = activeLayerId s) (layers s) = Some a \<and> visible (layers s ! a) \<longrightarrow>
            (k < length (layers s) \<and> visible (layers s ! k) \<and> cellOf (grid (layers s ! k)) x y \<noteq> [] \<and>
             (\<forall>j. k < j \<and> j < length (layers s) \<and> visible (layers s ! j) \<longrightarrow> cellOf (grid (layers s ! j)) x y = [])
               \<longrightarrow> handleDraw s x y isClick = Inr (s\<lparr>selectedColor := cellOf (grid (layers s ! k)) x y, tool := Pencil\<rparr>)) \<and>
            ((\<forall>j. j < length (layers s) \<and> visible (layers s ! j) \<longrightarrow> cellOf (grid (layers s ! j)) x y = [])
               \<longrightarrow> handleDraw s x y isClick = Inr s)) \<and>
         (findIndex (\<lambda>l. id_layer l = activeLayerId s) (layers s) = None \<or>
          (findIndex (\<lambda>l. id_layer l = activeLayerId s) (layers s) = Some a \<and> \<not> visible (layers s ! a))
            \<longrightarrow> handleDraw s x y isClick = Inr s)"
proof -
  have bounds: "\<not> (x < 0 \<or> x \<ge> int (gridSize s) \<or> y < 0 \<or> y \<ge> int (gridSize s))"
    using assms(2) by (simp add: inb_def)
  have found: "handleDraw s x y isClick = Inr (s\<lparr>selectedColor := cellOf (grid (layers s ! k)) x y, tool := Pencil\<rparr>)"
    if act: "findIndex (\<lambda>l. id_layer l = activeLayerId s) (layers s) = Some a" "visible (layers s ! a)"
      and top: "k < length (layers s)" "visible (layers s ! k)" "cellOf (grid (layers s ! k)) x y \<noteq> []"
        "\<forall>j. k < j \<and> j < length (layers s) \<and> visible (layers s ! j) \<longrightarrow> cellOf (grid (layers s ! j)) x y = []"
  proof -
    have "pickerLoop (layers s) x y (length (layers s)) = Inr (Some (cellOf (grid (layers s ! k)) x y))"
      using top by (intro pickerLoop_found[OF assms(3,2)]) simp_all
    then show ?thesis unfolding handleDraw_def using bounds act assms(1) by (simp add: Let_def)
  qed
  have unpicked: "handleDraw s x y isClick = Inr s"
    if act: "findIndex (\<lambda>l. id_layer l = activeLayerId s) (layers s) = Some a" "visible (layers s ! a)"
      and emp: "\<forall>j. j < length (layers s) \<and> visible (layers s ! j) \<longrightarrow> cellOf (grid (layers s ! j)) x y = []"
  proof -
    have "pickerLoop (layers s) x y (length (layers s)) = Inr None"
      using emp by (intro pickerLoop_none[OF assms(3,2)]) simp_all
    then show ?thesis unfolding handleDraw_def using bounds act assms(1) by (simp add: Let_def)
  qed
  have guard: "handleDraw s x y isClick = Inr s"
    if "findIndex (\<lambda>l. id_layer l = activeLayerId s) (layers s) = None \<or>
          (findIndex (\<lambda>l. id_layer l = activeLayerId s) (layers s) = Some a \<and> \<not> visible (layers s ! a))"
    using that unfolding handleDraw_def by auto
  show ?thesis using found unpicked guard by blast
qed

theorem picker_takes_topmost_visible_witness:
  "tool visibleActiveEditor = Picker \<and> inb (gridSize visibleActiveEditor) 0 0 \<and>
   wf_layers (gridSize visibleActiveEditor) (layers visibleActiveEditor) \<and>
   findIndex (\<lambda>l. id_layer l = activeLayerId visibleActiveEditor) (layers visibleActiveEditor) = Some 0 \<and>
   visible (layers visibleActiveEditor ! 0) \<and>
   cellOf (grid (layers visibleActiveEditor ! 0)) 0 0 \<noteq> [] \<and>
   handleDraw visibleActiveEditor 0 0 True =
     Inr (visibleActiveEditor\<lparr>selectedColor := cellOf (grid (layers visibleActiveEditor ! 0)) 0 0, tool := Pencil\<rparr>)"
proof -
  have h1: "tool visibleActiveEditor = Picker"
    by (simp add: visibleActiveEditor_def hiddenActiveEditor_def)
  have h2: "inb (gridSize visibleActiveEditor) 0 0"
    by (simp add: visibleActiveEditor_def hiddenActiveEditor_def inb_def)
  have h3: "wf_layers (gridSize visibleActiveEditor) (layers visibleActiveEditor)"
    by (simp add: visibleActiveEditor_def hiddenActiveEditor_def wf_layers_def wf_grid_def)
  have h4: "findIndex (\<lambda>l. id_layer l = activeLayerId visibleActiveEditor) (layers visibleActiveEditor) = Some 0"
    by (simp add: visibleActiveEditor_def hiddenActiveEditor_def)
  have h5: "visible (layers visibleActiveEditor ! 0)"
    by (simp add: visibleActiveEditor_def hiddenActiveEditor_def)
  have h6: "0 < length (layers visibleActiveEditor)"
    by (simp add: visibleActiveEditor_def hiddenActiveEditor_def)
  have h7: "cellOf (grid (layers visibleActiveEditor ! 0)) 0 0 \<noteq> []"
    by (simp add: visibleActiveEditor_def hiddenActiveEditor_def cellOf_def)
  have h8: "\<forall>j. 0 < j \<and> j < length (layers visibleActiveEditor) \<and> visible (layers visibleActiveEditor ! j)
              \<longrightarrow> cellOf (grid (layers visibleActiveEditor ! j)) 0 0 = []"
    by (auto simp: visibleActiveEditor_def hiddenActiveEditor_def less_Suc_eq)
  show ?thesis
    using h1 h2 h3 h4 h5 h6 h7 h8
      picker_takes_topmost_visible[OF h1 h2 h3, of 0 0 True] by blast
qed

text \<open>
  C7, as stated, fails when the active layer is hidden: the bottom layer is visible and
  red at \<open>(0, 0)\<close>, so the scan of the layers finds that colour, but the click with the
  picker leaves the state, and with it the selected colour, untouched.
\<close>

theorem picker_blocked_by_hidden_active_layer:
  "handleDraw hiddenActiveEditor 0 0 True = Inr hiddenActiveEditor \<and>
   pickerLoop (layers hiddenActiveEditor) 0 0 (length (layers hiddenActiveEditor)) = Inr (Some ''#ff0044'') \<and>
   selectedColor hiddenActiveEditor \<noteq> ''#ff0044''"
  by (simp add: handleDraw_def hiddenActiveEditor_def numeral_2_eq_2)

lemma pencil_paints:
  assumes "tool s = Pencil" and "inb (gridSize s) x y" and "wf_layers (gridSize s) (layers s)"
    and "findIndex (\<lambda>l. id_layer l = activeLayerId s) (layers s) = Some a"
    and "visible (layers s ! a)"
  shows "\<exists>g'. wf_grid (gridSize s) g' \<and> cellOf g' x y = selectedColor s \<and>
              handleDraw s x y isClick = Inr (s\<lparr>layers := (layers s)[a := (layers s ! a)\<lparr>grid := g'\<rparr>]\<rparr>)"
proof -
  let ?l = "layers s ! a"
  let ?g = "grid ?l"
  let ?c = "selectedColor s"
  have a: "a < length (layers s)" using findIndex_Some[OF assms(4)] by simp
  have wf: "wf_grid (gridSize s) ?g" using assms(3) a by (simp add: wf_layers_def list_all_length)
  have rc: "readCell ?g x y = Inr (cellOf ?g x y)" using wf assms(2) by (rule readCell_wf)
  have bounds: "\<not> (x < 0 \<or> x \<ge> int (gridSize s) \<or> y < 0 \<or> y \<ge> int (gridSize s))"
    using assms(2) by (simp add: inb_def)
  show ?thesis
  proof (cases "cellOf ?g x y = ?c")
    case True
    have "handleDraw s x y isClick = Inr s"
      unfolding handleDraw_def using bounds assms(1,4,5) rc True by (simp add: Let_def)
    moreover have "s\<lparr>layers := (layers s)[a := ?l\<lparr>grid := ?g\<rparr>]\<rparr> = s" by simp
    ultimately show ?thesis using wf True by metis
  next
    case False
    let ?g' = "?g[nat y := (?g ! nat y)[nat x := ?c]]"
    have "handleDraw s x y isClick = Inr (s\<lparr>layers := (layers s)[a := ?l\<lparr>grid := ?g'\<rparr>]\<rparr>)"
      unfolding handleDraw_def using bounds assms(1,4,5) rc False by (simp add: Let_def)
    moreover have "wf_grid (gridSize s) ?g'" using wf by (rule wf_grid_paint)
    moreover have "cellOf ?g' x y = ?c" using cellOf_paint[OF wf assms(2) assms(2)] by simp
    ultimately show ?thesis by blast
  qed
qed

text \<open>
  C9. With the pencil on a visible active layer, at valid coordinates and with a
  non-empty selected colour \<open>c\<close>, and no visible layer above the active one coloured at
  that cell: after the stroke the scan of the layers at the same cell finds \<open>c\<close>, and a
  click with the picker there selects \<open>c\<close>, whatever colour was selected in between.
\<close>

theorem paint_then_pick:
  assumes "tool s = Pencil" and "inb (gridSize s) x y" and "wf_layers (gridSize s) (layers s)"
    and "findIndex (\<lambda>l. id_layer l = activeLayerId s) (layers s) = Some a"
    and "visible (layers s ! a)"
    and "selectedColor s \<noteq> []"
    and "\<forall>j. a < j \<and> j < length (layers s) \<and> visible (layers s ! j) \<longrightarrow> cellOf (grid (layers s ! j)) x y = []"
  shows "\<exists>s'. handleDraw s x y isClick = Inr s' \<and>
              pickerLoop (layers s') x y (length (layers s')) = Inr (Some (selectedColor s)) \<and>
              handleDraw (s'\<lparr>selectedColor := c0, tool := Picker\<rparr>) x y isClick' =
                Inr (s'\<lparr>selectedColor := selectedColor s, tool := Pencil\<rparr>)"
proof -
  from pencil_paints[OF assms(1-5), of isClick] obtain g' where
    g': "wf_grid (gridSize s) g'" "cellOf g' x y = selectedColor s" and
    hd: "handleDraw s x y isClick = Inr (s\<lparr>layers := (layers s)[a := (layers s ! a)\<lparr>grid := g'\<rparr>]\<rparr>)"
    by blast
  let ?ls = "(layers s)[a := (layers s ! a)\<lparr>grid := g'\<rparr>]"
  let ?s' = "s\<lparr>layers := ?ls\<rparr>"
  have a: "a < length (layers s)" using findIndex_Some[OF assms(4)] by simp
  have wf': "wf_layers (gridSize s) ?ls" using assms(3) g'(1) by (rule wf_layers_update)
  have at: "visible (?ls ! a)" "cellOf (grid (?ls ! a)) x y = selectedColor s"
    using a assms(5) g'(2) by simp_all
  have above: "cellOf (grid (?ls ! j)) x y = []" if "a < j" "j < length ?ls" "visible (?ls ! j)" for j
    using that assms(7) by simp
  have "pickerLoop ?ls x y (length ?ls) = Inr (Some (cellOf (grid (?ls ! a)) x y))"
    using a at(1) at(2) assms(6) above by (intro pickerLoop_found[OF wf' assms(2)]) simp_all
  then have pick: "pickerLoop ?ls x y (length ?ls) = Inr (Some (selectedColor s))"
    using at(2) by simp
  have fi: "findIndex (\<lambda>l. id_layer l = activeLayerId s) ?ls = Some a"
    using assms(4) by (simp add: findIndex_update_grid)
  have bounds: "\<not> (x < 0 \<or> x \<ge> int (gridSize s) \<or> y < 0 \<or> y \<ge> int (gridSize s))"
    using assms(2) by (simp add: inb_def)
  have "handleDraw (?s'\<lparr>selectedColor := c0, tool := Picker\<rparr>) x y isClick' =
          Inr (?s'\<lparr>selectedColor := selectedColor s, tool := Pencil\<rparr>)"
    unfolding handleDraw_def using bounds fi at(1) pick by (simp add: Let_def)
  with hd pick show ?thesis by (intro exI[of _ ?s']) simp
qed

theorem paint_then_pick_witness:
  "tool pencilEditor = Pencil \<and> inb (gridSize pencilEditor) 1 0 \<and>
   wf_layers (gridSize pencilEditor) (layers pencilEditor) \<and>
   findIndex (\<lambda>l. id_layer l = activeLayerId pencilEditor) (layers pencilEditor) = Some 0 \<and>
   visible (layers pencilEditor ! 0) \<and> selectedColor pencilEditor \<noteq> [] \<and>
   (\<exists>s'. handleDraw pencilEditor 1 0 False = Inr s' \<and>
         pickerLoop (layers s') 1 0 (length (layers s')) = Inr (Some (selectedColor pencilEditor)))"
proof -
  have h1: "tool pencilEditor = Pencil"
    by (simp add: pencilEditor_def visibleActiveEditor_def hiddenActiveEditor_def)
  have h2: "inb (gridSize pencilEditor) 1 0"
    by (simp add: pencilEditor_def visibleActiveEditor_def hiddenActiveEditor_def inb_def)
  have h3: "wf_layers (gridSize pencilEditor) (layers pencilEditor)"
    by (simp add: pencilEditor_def visibleActiveEditor_def hiddenActiveEditor_def wf_layers_def wf_grid_def)
  have h4: "findIndex (\<lambda>l. id_layer l = activeLayerId pencilEditor) (layers pencilEditor) = Some 0"
    by (simp add: pencilEditor_def visibleActiveEditor_def hiddenActiveEditor_def)
  have h5: "visible (layers pencilEditor ! 0)"
    by (simp add: pencilEditor_def visibleActiveEditor_def hiddenActiveEditor_def)
  have h6: "selectedColor pencilEditor \<noteq> []"
    by (simp add: pencilEditor_def visibleActiveEditor_def hiddenActiveEditor_def)
  have h7: "\<forall>j. 0 < j \<and> j < length (layers pencilEditor) \<and> visible (layers pencilEditor ! j)
              \<longrightarrow> cellOf (grid (layers pencilEditor ! j)) 1 0 = []"
    by (auto simp: pencilEditor_def visibleActiveEditor_def hiddenActiveEditor_def less_Suc_eq)
  show ?thesis
    using h1 h2 h3 h4 h5 h6 paint_then_pick[OF h1 h2 h3 h4 h5 h6 h7, of False "[]" True] by blast
qed

section \<open>Changing the grid size\<close>

lemma copyRow_result:
  "m \<le> length src \<Longrightarrow> m \<le> length dst \<Longrightarrow>
   \<exists>dst'. copyRow src dst x m = Inr dst' \<and> length dst' = length dst \<and>
          (\<forall>i<length dst. dst' ! i = (if x \<le> i \<and> i < m then src ! i else dst ! i))"
proof (induction src dst x m rule: copyRow.induct)
  case (1 src dst x m)
  show ?case
  proof (cases "x < m")
    case False
    then show ?thesis by (subst copyRow.simps) auto
  next
    case True
    with "1.prems" have xs: "x < length src" by simp
    from "1.IH"[OF True xs] "1.prems" obtain dst' where
      r: "copyRow src (dst[x := src ! x]) (x + 1) m = Inr dst'" and
      l: "length dst' = length dst" and
      c: "\<forall>i<length dst. dst' ! i = (if x + 1 \<le> i \<and> i < m then src ! i else dst[x := src ! x] ! i)"
      by auto
    have "copyRow src dst x m = Inr dst'" using True xs r by (subst copyRow.simps) simp
    moreover have "\<forall>i<length dst. dst' ! i = (if x \<le> i \<and> i < m then src ! i else dst ! i)"
    proof (intro allI impI)
      fix i assume i: "i < length dst"
      show "dst' ! i = (if x \<le> i \<and> i < m then src ! i else dst ! i)"
        using c i True by (cases "i = x") (auto simp: nth_list_update)
    qed
    ultimately show ?thesis using l by blast
  qed
qed

lemma copyRows_result:
  "m \<le> length src \<Longrightarrow> m \<le> length new \<Longrightarrow> \<forall>j<m. m \<le> length (src ! j) \<Longrightarrow>
   \<forall>j<length new. m \<le> length (new ! j) \<Longrightarrow>
   \<exists>new'. copyRows src new y m = Inr new' \<and> length new' = length new \<and>
          (\<forall>j<length new. length (new' ! j) = length (new ! j) \<and>
             (\<forall>i<length (new ! j). new' ! j ! i = (if y \<le> j \<and> j < m \<and> i < m then src ! j ! i else new ! j ! i)))"
proof (induction src new y m rule: copyRows.induct)
  case (1 src new y m)
  show ?case
  proof (cases "y < m")
    case False
    then show ?thesis by (subst copyRows.simps) auto
  next
    case True
    with "1.prems" have ys: "y < length src" and yn: "y < length new" by simp_all
    have "m \<le> length (src ! y)" "m \<le> length (new ! y)" using "1.prems" True yn by simp_all
    from copyRow_result[OF this, of 0] obtain row where
      row: "copyRow (src ! y) (new ! y) 0 m = Inr row" "length row = length (new ! y)"
        "\<forall>i<length (new ! y). row ! i = (if i < m then src ! y ! i else new ! y ! i)" by auto
    have p4: "\<forall>j<length (new[y := row]). m \<le> length (new[y := row] ! j)"
    proof (intro allI impI)
      fix j assume "j < length (new[y := row])"
      then show "m \<le> length (new[y := row] ! j)"
        using "1.prems"(4) row(2) yn by (cases "j = y") simp_all
    qed
    from "1.IH"[OF True ys row(1) "1.prems"(1) _ "1.prems"(3) p4] "1.prems"(2) obtain new' where
      r: "copyRows src (new[y := row]) (y + 1) m = Inr new'" and
      l: "length new' = length new" and
      c: "\<forall>j<length new. length (new' ! j) = length (new[y := row] ! j) \<and>
             (\<forall>i<length (new[y := row] ! j). new' ! j ! i =
                (if y + 1 \<le> j \<and> j < m \<and> i < m then src ! j ! i else new[y := row] ! j ! i))"
      by auto
    have res: "copyRows src new y m = Inr new'" using True ys row(1) r by (subst copyRows.simps) simp
    have "\<forall>j<length new. length (new' ! j) = length (new ! j) \<and>
             (\<forall>i<length (new ! j). new' ! j ! i = (if y \<le> j \<and> j < m \<and> i < m then src ! j ! i else new ! j ! i))"
    proof (intro allI impI)
      fix j assume j: "j < length new"
      show "length (new' ! j) = length (new ! j) \<and>
             (\<forall>i<length (new ! j). new' ! j ! i = (if y \<le> j \<and> j < m \<and> i < m then src ! j ! i else new ! j ! i))"
      proof (cases "j = y")
        case True
        with c j row yn \<open>y < m\<close> show ?thesis by (auto simp: nth_list_update)
      next
        case False
        with c j show ?thesis by (auto simp: nth_list_update)
      qed
    qed
    with res l show ?thesis by blast
  qed
qed


lemma createEmptyGrid_nth:
  "j < n \<Longrightarrow> i < n \<Longrightarrow> createEmptyGrid n ! j ! i = []"
  by (simp add: createEmptyGrid_def)

lemma resizeLayer_wf:
  assumes "wf_grid old (grid l)"
  shows "\<exists>g'. resizeLayer new old l = Inr (l\<lparr>grid := g'\<rparr>) \<and> wf_grid new g' \<and>
           (\<forall>x y. inb new x y \<longrightarrow>
              cellOf g' x y = (if x < int (min old new) \<and> y < int (min old new) then cellOf (grid l) x y else []))"
proof -
  let ?m = "min new old"
  let ?e = "createEmptyGrid new"
  have le: "length ?e = new" "\<forall>j<length ?e. length (?e ! j) = new"
    by (simp_all add: createEmptyGrid_def)
  have p1: "?m \<le> length (grid l)" using assms by (simp add: wf_grid_def)
  have p2: "?m \<le> length ?e" using le by simp
  have p3: "\<forall>j<?m. ?m \<le> length (grid l ! j)"
    using assms by (simp add: wf_grid_def list_all_length)
  have p4: "\<forall>j<length ?e. ?m \<le> length (?e ! j)" using le by simp
  from copyRows_result[OF p1 p2 p3 p4, of 0] obtain g' where
    r: "copyRows (grid l) ?e 0 ?m = Inr g'" and
    l: "length g' = length ?e" and
    c: "\<forall>j<length ?e. length (g' ! j) = length (?e ! j) \<and>
          (\<forall>i<length (?e ! j). g' ! j ! i = (if 0 \<le> j \<and> j < ?m \<and> i < ?m then grid l ! j ! i else ?e ! j ! i))"
    by blast
  have res: "resizeLayer new old l = Inr (l\<lparr>grid := g'\<rparr>)" using r by (simp add: resizeLayer_def)
  have wf: "wf_grid new g'" using l c le by (simp add: wf_grid_def list_all_length)
  have cells: "cellOf g' x y = (if x < int (min old new) \<and> y < int (min old new) then cellOf (grid l) x y else [])"
    if ib: "inb new x y" for x y
  proof -
    from ib have xy: "0 \<le> x" "0 \<le> y" "nat y < new" "nat x < new" by (auto simp: inb_def)
    have "g' ! nat y ! nat x = (if nat y < ?m \<and> nat x < ?m then grid l ! nat y ! nat x else ?e ! nat y ! nat x)"
      using c le xy by simp
    moreover have "?e ! nat y ! nat x = []" using xy by (simp add: createEmptyGrid_nth)
    moreover have "(nat y < ?m \<and> nat x < ?m) = (x < int (min old new) \<and> y < int (min old new))"
      using xy by auto
    ultimately show ?thesis by (simp add: cellOf_def)
  qed
  from res wf cells show ?thesis by blast
qed

lemma mapLayers_all:
  "\<forall>l\<in>set ls. \<exists>l'. f l = Inr l' \<Longrightarrow>
   \<exists>ls'. mapLayers f ls = Inr ls' \<and> length ls' = length ls \<and> (\<forall>k<length ls. f (ls ! k) = Inr (ls' ! k))"
proof (induction ls)
  case Nil
  then show ?case by simp
next
  case (Cons l ls)
  from Cons.prems obtain l' where l': "f l = Inr l'" by auto
  from Cons.IH Cons.prems obtain ls' where ls': "mapLayers f ls = Inr ls'" "length ls' = length ls"
    "\<forall>k<length ls. f (ls ! k) = Inr (ls' ! k)" by auto
  have "mapLayers f (l # ls) = Inr (l' # ls')" using l' ls'(1) by simp
  moreover have "\<forall>k<length (l # ls). f ((l # ls) ! k) = Inr ((l' # ls') ! k)"
    using l' ls'(3) by (auto simp: nth_Cons split: nat.splits)
  ultimately show ?case using ls'(2) by (intro exI[of _ "l' # ls'"]) simp
qed

text \<open>
  C8. On a document whose grids all have the current size, \<^verbatim>\<open>changeGridSize\<close> with the
  current size changes nothing. With another size it gives every layer a grid of the
  new size in which cell \<open>(x, y)\<close> is the old cell for \<open>x, y\<close> below the smaller of the
  two sizes and empty elsewhere; the other fields of each layer stay as they were.
\<close>

theorem changeGridSize_resizes:
  assumes "wf_layers (gridSize s) (layers s)"
  shows "(newSize = gridSize s \<longrightarrow> changeGridSize s newSize = Inr s) \<and>
         (newSize \<noteq> gridSize s \<longrightarrow>
            (\<exists>s'. changeGridSize s newSize = Inr s' \<and> gridSize s' = newSize \<and>
                  length (layers s') = length (layers s) \<and>
                  (\<forall>k<length (layers s).
                     wf_grid newSize (grid (layers s' ! k)) \<and>
                     layers s' ! k = (layers s ! k)\<lparr>grid := grid (layers s' ! k)\<rparr> \<and>
                     (\<forall>x y. inb newSize x y \<longrightarrow>
                        cellOf (grid (layers s' ! k)) x y =
                          (if x < int (min (gridSize s) newSize) \<and> y < int (min (gridSize s) newSize)
                           then cellOf (grid (layers s ! k)) x y else [])))))"
proof (intro conjI impI)
  assume "newSize = gridSize s"
  then show "changeGridSize s newSize = Inr s" by (simp add: changeGridSize_def)
next
  assume ne: "newSize \<noteq> gridSize s"
  let ?f = "resizeLayer newSize (gridSize s)"
  have wfk: "wf_grid (gridSize s) (grid l)" if "l \<in> set (layers s)" for l
    using assms that by (simp add: wf_layers_def list_all_iff)
  have "\<forall>l\<in>set (layers s). \<exists>l'. ?f l = Inr l'"
    using resizeLayer_wf[OF wfk, of _ newSize] by blast
  from mapLayers_all[OF this] obtain ls' where
    m: "mapLayers ?f (layers s) = Inr ls'" and
    len: "length ls' = length (layers s)" and
    each: "\<forall>k<length (layers s). ?f (layers s ! k) = Inr (ls' ! k)" by blast
  let ?s' = "addToHistory (s\<lparr>gridSize := newSize, layers := ls'\<rparr>) ls' newSize"
  have res: "changeGridSize s newSize = Inr ?s'" using ne m by (simp add: changeGridSize_def)
  have fields: "gridSize ?s' = newSize" "layers ?s' = ls'"
    by (simp_all add: addToHistory_def Let_def)
  have layer: "wf_grid newSize (grid (ls' ! k)) \<and>
               ls' ! k = (layers s ! k)\<lparr>grid := grid (ls' ! k)\<rparr> \<and>
               (\<forall>x y. inb newSize x y \<longrightarrow>
                  cellOf (grid (ls' ! k)) x y =
                    (if x < int (min (gridSize s) newSize) \<and> y < int (min (gridSize s) newSize)
                     then cellOf (grid (layers s ! k)) x y else []))"
    if k: "k < length (layers s)" for k
  proof -
    have "layers s ! k \<in> set (layers s)" using k by simp
    from resizeLayer_wf[OF wfk[OF this], of newSize] obtain g' where
      g': "?f (layers s ! k) = Inr ((layers s ! k)\<lparr>grid := g'\<rparr>)" "wf_grid newSize g'"
        "\<forall>x y. inb newSize x y \<longrightarrow>
              cellOf g' x y = (if x < int (min (gridSize s) newSize) \<and> y < int (min (gridSize s) newSize)
                               then cellOf (grid (layers s ! k)) x y else [])" by blast
    from each k g'(1) have "ls' ! k = (layers s ! k)\<lparr>grid := g'\<rparr>" by simp
    with g'(2,3) show ?thesis by simp
  qed
  show "\<exists>s'. changeGridSize s newSize = Inr s' \<and> gridSize s' = newSize \<and>
                  length (layers s') = length (layers s) \<and>
                  (\<forall>k<length (layers s).
                     wf_grid newSize (grid (layers s' ! k)) \<and>
                     layers s' ! k = (layers s ! k)\<lparr>grid := grid (layers s' ! k)\<rparr> \<and>
                     (\<forall>x y. inb newSize x y \<longrightarrow>
                        cellOf (grid (layers s' ! k)) x y =
                          (if x < int (min (gridSize s) newSize) \<and> y < int (min (gridSize s) newSize)
                           then cellOf (grid (layers s ! k)) x y else [])))"
    using res fields len layer by (intro exI[of _ ?s']) simp
qed

theorem changeGridSize_resizes_witness:
  "wf_layers (gridSize pencilEditor) (layers pencilEditor) \<and> 3 \<noteq> gridSize pencilEditor \<and>
   (\<exists>s'. changeGridSize pencilEditor 3 = Inr s' \<and> gridSize s' = 3 \<and>
         length (layers s') = length (layers pencilEditor) \<and>
         (\<forall>k<length (layers pencilEditor).
            wf_grid 3 (grid (layers s' ! k)) \<and>
            layers s' ! k = (layers pencilEditor ! k)\<lparr>grid := grid (layers s' ! k)\<rparr> \<and>
            (\<forall>x y. inb 3 x y \<longrightarrow>
               cellOf (grid (layers s' ! k)) x y =
                 (if x < int (min (gridSize pencilEditor) 3) \<and> y < int (min (gridSize pencilEditor) 3)
                  then cellOf (grid (layers pencilEditor ! k)) x y else []))))"
proof -
  have h1: "wf_layers (gridSize pencilEditor) (layers pencilEditor)"
    by (simp add: pencilEditor_def visibleActiveEditor_def hiddenActiveEditor_def wf_layers_def wf_grid_def)
  have h2: "3 \<noteq> gridSize pencilEditor"
    by (simp add: pencilEditor_def visibleActiveEditor_def hiddenActiveEditor_def)
  show ?thesis
    using h1 h2 changeGridSize_resizes[OF h1, of 3] by blast
qed

end
